theory Spec2Isabelle
  imports Main "HOL-Library.Sublist" "HOL-Library.AList"
begin

text \<open>
  A model of the freshness-and-merge engine of the news scraper: the listing fetcher and
  the near-duplicate filter of \<open>app/services/scraper.py\<close> and the cache manager of
  \<open>app/services/cache.py\<close>. Functions carry the names of the source (without a
  leading underscore). The keys of the source's dictionaries (\<open>url\<close>, \<open>title\<close>,
  \<open>category\<close>, \<open>content\<close>, ...) are record fields, so a parameter the source calls
  \<open>category\<close> is \<open>cat\<close> here. What the source reaches through \<open>self.scraper\<close>,
  \<open>summarizer\<close>, \<open>datetime\<close> and \<open>db\<close> is an explicit environment \<open>e\<close> and
  an explicit state \<open>w\<close>; a function that can raise has a value in \<open>error + _\<close>.
\<close>

section \<open>Strings as Python sees them\<close>

text \<open>
  Titles and urls are Python \<open>str\<close> values. They are modelled as \<open>string\<close> (a list of
  characters) restricted to ASCII: \<open>py_isspace\<close> lists the ASCII characters for which
  \<open>str.isspace\<close> holds, and \<open>py_lower\<close> maps \<open>A..Z\<close> to \<open>a..z\<close> and leaves every other
  character alone.
\<close>

definition py_isspace :: "char \<Rightarrow> bool" where
  "py_isspace c = (c \<in> set [CHR '' '', CHR 0x09, CHR 0x0A, CHR 0x0B, CHR 0x0C, CHR 0x0D,
                              CHR 0x1C, CHR 0x1D, CHR 0x1E, CHR 0x1F])"

definition lower_char :: "char \<Rightarrow> char" where
  "lower_char c =
     (if (65::nat) \<le> of_char c \<and> of_char c \<le> (90::nat)
      then (case c of Char b0 b1 b2 b3 b4 b5 b6 b7 \<Rightarrow> Char b0 b1 b2 b3 b4 True b6 b7)
      else c)"

definition py_lower :: "string \<Rightarrow> string" where
  "py_lower s = map lower_char s"

definition py_strip :: "string \<Rightarrow> string" where
  "py_strip s = rev (dropWhile py_isspace (rev (dropWhile py_isspace s)))"

text \<open>
  \<open>str.split()\<close> without arguments: maximal runs of non-whitespace characters, in order.
  \<open>split_ws w cs\<close> scans \<open>cs\<close> with the word collected so far in \<open>w\<close>.
\<close>

fun split_ws :: "string \<Rightarrow> string \<Rightarrow> string list" where
  "split_ws w [] = (if w = [] then [] else [w])"
| "split_ws w (c # cs) =
     (if py_isspace c then (if w = [] then split_ws [] cs else w # split_ws [] cs)
      else split_ws (w @ [c]) cs)"

definition py_split :: "string \<Rightarrow> string list" where
  "py_split s = split_ws [] s"

text \<open>\<open>needle in haystack\<close> and \<open>haystack.startswith(needle)\<close> on strings.\<close>

definition py_in :: "string \<Rightarrow> string \<Rightarrow> bool" where
  "py_in needle haystack = sublist needle haystack"

definition startswith :: "string \<Rightarrow> string \<Rightarrow> bool" where
  "startswith s p = prefix p s"

text \<open>
  The slice \<open>xs[:n]\<close> for a Python integer \<open>n\<close>: the first \<open>n\<close> elements when
  \<open>n \<ge> 0\<close>, all but the last \<open>-n\<close> elements when \<open>n < 0\<close>.
\<close>

definition py_slice_to :: "int \<Rightarrow> 'a list \<Rightarrow> 'a list" where
  "py_slice_to n xs =
     (if 0 \<le> n then take (nat n) xs else take (nat (int (length xs) + n)) xs)"

section \<open>Listing stubs and the near-duplicate filter (scraper.py)\<close>

text \<open>The dictionaries \<open>{'url', 'title', 'category'}\<close> that \<open>get_category_articles\<close> builds.\<close>

record stub =
  url :: string
  title :: string
  category :: string

text \<open>
  The test of \<open>_deduplicate_articles\<close> on two token sets:
  \<open>len(title_words) > 0 and len(seen_words) > 0\<close> and
  \<open>len(common_words) / max(len(title_words), len(seen_words)) > 0.7\<close>.
  The source divides in floating point and compares with the double nearest to 0.7; for
  token counts below \<open>10^14\<close> (a title holds a few dozen words) that comparison has the
  same truth value as the exact one \<open>10 * common > 7 * max\<close>, which is what is written
  here.
\<close>

definition similar :: "string set \<Rightarrow> string set \<Rightarrow> bool" where
  "similar title_words seen_words =
     (card title_words > 0 \<and> card seen_words > 0 \<and>
      7 * max (card title_words) (card seen_words) < 10 * card (title_words \<inter> seen_words))"

definition normalize_title :: "string \<Rightarrow> string" where
  "normalize_title t = py_strip (py_lower t)"

definition title_tokens :: "stub \<Rightarrow> string set" where
  "title_tokens a = set (py_split (normalize_title (title a)))"

text \<open>
  The loop of \<open>_deduplicate_articles\<close> with its two variables \<open>unique_articles\<close> and
  \<open>seen_titles\<close>. \<open>seen_titles\<close> is a Python set, iterated in an order the language does
  not fix; the inner loop only computes whether some seen title is similar, so it is an
  existential here.
\<close>

definition is_duplicate :: "string set \<Rightarrow> string set \<Rightarrow> bool" where
  "is_duplicate seen_titles title_words =
     (\<exists>seen_title \<in> seen_titles. similar title_words (set (py_split seen_title)))"

fun dedup_loop :: "stub list \<Rightarrow> stub list \<times> string set \<Rightarrow> stub list \<times> string set" where
  "dedup_loop [] acc = acc"
| "dedup_loop (article # rest) (unique_articles, seen_titles) =
     (let title_normalized = normalize_title (title article);
          title_words = set (py_split title_normalized)
      in if \<not> is_duplicate seen_titles title_words
         then dedup_loop rest (unique_articles @ [article], insert title_normalized seen_titles)
         else dedup_loop rest (unique_articles, seen_titles))"

definition deduplicate_articles :: "stub list \<Rightarrow> stub list" where
  "deduplicate_articles articles =
     (if articles = [] then [] else fst (dedup_loop articles ([], {})))"

section \<open>Configuration (config.py)\<close>

definition CATEGORIES :: "(string \<times> string) list" where
  "CATEGORIES =
     [(''india'', ''https://indianexpress.com/section/india/''),
      (''politics'', ''https://indianexpress.com/section/political-pulse/''),
      (''sports'', ''https://indianexpress.com/section/sports/''),
      (''technology'', ''https://indianexpress.com/section/technology/''),
      (''business'', ''https://indianexpress.com/section/business/''),
      (''world'', ''https://indianexpress.com/section/world/''),
      (''explained'', ''https://indianexpress.com/section/explained/''),
      (''lifestyle'', ''https://indianexpress.com/section/lifestyle/''),
      (''opinion'', ''https://indianexpress.com/section/opinion/''),
      (''cities'', ''https://indianexpress.com/section/cities/'')]"

section \<open>The collaborators: network, summarizer, clock and database\<close>

text \<open>
  What the code receives from outside is read from an environment \<open>env\<close>, indexed by the
  number of interactions with the outside made so far (\<open>tick\<close> of the state below), so that
  two requests for the same page may see different content, the clock moves, and the
  database may fail at one moment and not at another.

  \<^item> \<open>page_at\<close>: the parsed listing page behind \<open>session.get(category_url)\<close>, \<open>None\<close> when
    the request or \<open>raise_for_status\<close> raises. Of the page only the link elements matter:
    \<open>headline_links\<close> are the elements matched by the eight headline selectors, in selector
    order, \<open>all_links\<close> those of \<open>soup.find_all('a', href=True)\<close>. A link carries its
    \<open>href\<close> attribute (\<open>''\<close> when absent) and \<open>link_title\<close>, the value of
    \<open>_extract_title_from_link\<close> for the element.
  \<^item> \<open>content_at\<close>: the title and the concatenated paragraph text that
    \<open>get_article_content\<close> extracts from an article page, \<open>None\<close> when the request raises.
  \<^item> \<open>summary_at\<close>: \<open>summarizer.summarize_text(content, title)\<close>, as
    \<open>(heading, summary)\<close>; it always returns.
  \<^item> \<open>utcnow_at\<close>: \<open>datetime.utcnow()\<close> in microseconds.
  \<^item> \<open>db_ok_at\<close>: whether a statement sent to the database at that moment succeeds; when
    it does not, SQLAlchemy raises.
  \<^item> \<open>sha256_hex\<close>: \<open>hashlib.sha256(...).hexdigest()\<close>.
\<close>

record link =
  href :: string
  link_title :: string

record page =
  headline_links :: "link list"
  all_links :: "link list"

record scraped =
  scraped_title :: string
  scraped_content :: string

record env =
  page_at :: "nat \<Rightarrow> string \<Rightarrow> page option"
  content_at :: "nat \<Rightarrow> string \<Rightarrow> scraped option"
  summary_at :: "nat \<Rightarrow> string \<Rightarrow> string \<Rightarrow> string \<times> string"
  utcnow_at :: "nat \<Rightarrow> int"
  db_ok_at :: "nat \<Rightarrow> bool"
  sha256_hex :: "string \<Rightarrow> string"

text \<open>The only exception that reaches \<open>get_articles_with_cache\<close>: a failing database call.\<close>

datatype error = StoreError

text \<open>
  Rows of the tables \<open>articles\<close> and \<open>category_cache\<close> (models.py). Columns the cache
  manager never reads (\<open>category_cache.id\<close>, \<open>cached_pdf_path\<close>) are left out;
  \<open>latest_article_url\<close> is nullable, as the \<open>Optional[str]\<close> that \<open>should_update_cache\<close>
  returns. Times are microseconds.
\<close>

record article_row =
  row_id :: nat
  row_url :: string
  row_category :: string
  row_title :: string
  row_summary :: string
  row_content :: string
  row_content_hash :: string
  row_scraped_at :: int

record cache_row =
  category_name :: string
  latest_article_url :: "string option"
  cached_articles_json :: "nat list"
  cached_at :: int

text \<open>
  The state: both tables in row order, the interaction counter, and a log of the urls
  handed to \<open>get_article_content\<close> (kept only to state how many content requests a call
  makes).
\<close>

record world =
  article_table :: "article_row list"
  cache_table :: "cache_row list"
  tick :: nat
  content_requests :: "string list"

definition advance :: "world \<Rightarrow> world" where
  "advance w = w\<lparr>tick := Suc (tick w)\<rparr>"

definition db_access :: "env \<Rightarrow> world \<Rightarrow> error + world" where
  "db_access e w = (if db_ok_at e (tick w) then Inr (advance w) else Inl StoreError)"

definition utcnow :: "env \<Rightarrow> world \<Rightarrow> int \<times> world" where
  "utcnow e w = (utcnow_at e (tick w), advance w)"

definition four_hours :: int where
  "four_hours = 4 * 60 * 60 * 1000000"

section \<open>The listing fetcher (scraper.py)\<close>

definition skip_patterns :: "string list" where
  "skip_patterns =
     [''/videos/'', ''/photos/'', ''/gallery/'', ''/live-blog/'',
      ''/subscribe'', ''/newsletter'', ''/contact'', ''/about'',
      ''/privacy'', ''/terms'', ''/advertise'', ''/jobs'',
      ''facebook.com'', ''twitter.com'', ''instagram.com'',
      ''youtube.com'', ''whatsapp.com'', ''telegram.me'']"

definition valid_patterns :: "string list" where
  "valid_patterns =
     [''/section/'', ''/article/'', ''/explained/'', ''/opinion/'',
      ''/sports/'', ''/business/'', ''/cities/'', ''/lifestyle/'',
      ''/entertainment/'', ''/technology/'', ''/world/'']"

text \<open>
  \<open>_is_valid_article_url\<close>. \<open>len(url.split('/'))\<close> is one more than the number of
  slashes in \<open>url\<close>.
\<close>

definition is_valid_article_url :: "string \<Rightarrow> bool" where
  "is_valid_article_url u =
     (let url_lower = py_lower u in
      if \<exists>pattern \<in> set skip_patterns. py_in pattern url_lower then False
      else if \<exists>pattern \<in> set valid_patterns. py_in pattern url_lower then True
      else if py_in ''indianexpress.com'' url_lower
              \<and> 4 \<le> Suc (length (filter (\<lambda>c. c = CHR ''/'') u)) then True
      else False)"

text \<open>The url built from a stripped, non-empty \<open>href\<close>; \<open>None\<close> where the loop continues.\<close>

definition build_full_url :: "string \<Rightarrow> string option" where
  "build_full_url h =
     (if startswith h ''/'' then Some (''https://indianexpress.com'' @ h)
      else if startswith h ''http'' then Some h
      else None)"

text \<open>
  The first loop of \<open>get_category_articles\<close>, over the headline links, with its variables
  \<open>articles\<close> and \<open>found_urls\<close>.
\<close>

fun headline_loop ::
  "int \<Rightarrow> string \<Rightarrow> link list \<Rightarrow> stub list \<times> string set \<Rightarrow> stub list \<times> string set" where
  "headline_loop limit cat [] acc = acc"
| "headline_loop limit cat (l # links) (articles, found_urls) =
     (let h = py_strip (href l) in
      if h = [] then headline_loop limit cat links (articles, found_urls)
      else (case build_full_url h of
              None \<Rightarrow> headline_loop limit cat links (articles, found_urls)
            | Some full_url \<Rightarrow>
                if py_in ''indianexpress.com'' full_url \<and> full_url \<notin> found_urls
                   \<and> is_valid_article_url full_url \<and> int (card found_urls) < limit * 2
                then (if link_title l \<noteq> [] \<and> 15 < length (py_strip (link_title l))
                      then headline_loop limit cat links
                             (articles @ [\<lparr>url = full_url, title = py_strip (link_title l),
                                           category = cat\<rparr>],
                              insert full_url found_urls)
                      else headline_loop limit cat links (articles, found_urls))
                else headline_loop limit cat links (articles, found_urls)))"

text \<open>The second loop, over all links, entered when there are fewer than \<open>limit\<close> articles.\<close>

fun fallback_loop ::
  "int \<Rightarrow> string \<Rightarrow> link list \<Rightarrow> stub list \<times> string set \<Rightarrow> stub list \<times> string set" where
  "fallback_loop limit cat [] acc = acc"
| "fallback_loop limit cat (l # links) (articles, found_urls) =
     (if limit \<le> int (length articles) then (articles, found_urls)
      else
        (let h = py_strip (href l) in
         if h = [] then fallback_loop limit cat links (articles, found_urls)
         else (case build_full_url h of
                 None \<Rightarrow> fallback_loop limit cat links (articles, found_urls)
               | Some full_url \<Rightarrow>
                   if py_in ''indianexpress.com'' full_url \<and> full_url \<notin> found_urls
                      \<and> is_valid_article_url full_url
                   then (if link_title l \<noteq> [] \<and> 15 < length (py_strip (link_title l))
                         then fallback_loop limit cat links
                                (articles @ [\<lparr>url = full_url, title = py_strip (link_title l),
                                              category = cat\<rparr>],
                                 insert full_url found_urls)
                         else fallback_loop limit cat links (articles, found_urls))
                   else fallback_loop limit cat links (articles, found_urls))))"

definition collect_links :: "int \<Rightarrow> string \<Rightarrow> page \<Rightarrow> stub list" where
  "collect_links limit cat pg =
     (let (articles, found_urls) = headline_loop limit cat (headline_links pg) ([], {}) in
      if int (length articles) < limit
      then fst (fallback_loop limit cat (all_links pg) (articles, found_urls))
      else articles)"

text \<open>
  \<open>get_category_articles(category, limit)\<close> with an integer \<open>limit\<close> (the cache manager
  always passes one). An unknown category returns \<open>[]\<close> without a request; a failed
  request returns \<open>[]\<close> through the \<open>except\<close> clause.
\<close>

definition get_category_articles :: "env \<Rightarrow> string \<Rightarrow> int \<Rightarrow> world \<Rightarrow> stub list \<times> world" where
  "get_category_articles e cat limit w =
     (case map_of CATEGORIES cat of
        None \<Rightarrow> ([], w)
      | Some category_url \<Rightarrow>
          if category_url = [] then ([], w)
          else (case page_at e (tick w) category_url of
                  None \<Rightarrow> ([], advance w)
                | Some pg \<Rightarrow>
                    (py_slice_to limit (deduplicate_articles (collect_links limit cat pg)),
                     advance w)))"

section \<open>The content fetcher (scraper.py)\<close>

text \<open>The dictionary \<open>get_article_content\<close> returns.\<close>

record content_dict =
  cd_url :: string
  cd_title :: string
  cd_content :: string
  cd_content_hash :: string

definition get_article_content :: "env \<Rightarrow> string \<Rightarrow> world \<Rightarrow> content_dict option \<times> world" where
  "get_article_content e article_url w =
     (let w' = (advance w)\<lparr>content_requests := content_requests w @ [article_url]\<rparr> in
      case content_at e (tick w) article_url of
        None \<Rightarrow> (None, w')
      | Some sc \<Rightarrow>
          if py_strip (scraped_content sc) = [] then (None, w')
          else (Some \<lparr>cd_url = article_url, cd_title = scraped_title sc,
                       cd_content = py_strip (scraped_content sc),
                       cd_content_hash = sha256_hex e (scraped_content sc)\<rparr>, w'))"

section \<open>The cache manager (cache.py)\<close>

text \<open>
  The article dictionaries the cache manager passes around: a stub's keys plus \<open>content\<close>
  and the keys that only some of them carry (\<open>None\<close> when the key is absent).
\<close>

record article = stub +
  content :: string
  content_hash :: "string option"
  heading :: "string option"
  summary :: "string option"
  scraped_at :: "int option"

text \<open>
  The two lookups by a unique column,
  \<open>db.query(CategoryCache).filter(CategoryCache.category_name == category).first()\<close> and
  \<open>db.query(Article).filter(Article.url == url).first()\<close>.
\<close>

definition find_cache_entry :: "cache_row list \<Rightarrow> string \<Rightarrow> cache_row option" where
  "find_cache_entry tbl cat = find (\<lambda>c. category_name c = cat) tbl"

definition find_article_by_url :: "article_row list \<Rightarrow> string \<Rightarrow> article_row option" where
  "find_article_by_url tbl u = find (\<lambda>r. row_url r = u) tbl"

definition row_to_dict :: "article_row \<Rightarrow> article" where
  "row_to_dict r =
     \<lparr>url = row_url r, title = row_title r, category = row_category r,
      content = row_content r, content_hash = None, heading = Some (row_title r),
      summary = Some (row_summary r), scraped_at = Some (row_scraped_at r)\<rparr>"

definition get_cached_articles ::
  "env \<Rightarrow> string \<Rightarrow> world \<Rightarrow> error + (article list option \<times> world)" where
  "get_cached_articles e cat w =
     (case db_access e w of
        Inl err \<Rightarrow> Inl err
      | Inr w1 \<Rightarrow>
          (case find_cache_entry (cache_table w1) cat of
             None \<Rightarrow> Inr (None, w1)
           | Some cache_entry \<Rightarrow>
               (let (now, w2) = utcnow e w1; cache_age = now - cached_at cache_entry in
                if four_hours < cache_age then Inr (None, w2)
                else if cached_articles_json cache_entry = [] then Inr (None, w2)
                else (case db_access e w2 of
                        Inl err \<Rightarrow> Inl err
                      | Inr w3 \<Rightarrow>
                          Inr (Some (map row_to_dict
                                 (sort_key (\<lambda>r. - row_scraped_at r)
                                    (filter (\<lambda>r. row_id r \<in> set (cached_articles_json cache_entry))
                                       (article_table w3)))),
                               w3)))))"

definition get_latest_article_url :: "env \<Rightarrow> string \<Rightarrow> world \<Rightarrow> string option \<times> world" where
  "get_latest_article_url e cat w =
     (let (articles, w1) = get_category_articles e cat 1 w in
      (case articles of [] \<Rightarrow> None | a # _ \<Rightarrow> Some (url a), w1))"

definition should_update_cache ::
  "env \<Rightarrow> string \<Rightarrow> world \<Rightarrow> error + ((bool \<times> string option) \<times> world)" where
  "should_update_cache e cat w =
     (case db_access e w of
        Inl err \<Rightarrow> Inl err
      | Inr w1 \<Rightarrow>
          (let (current_latest_url, w2) = get_latest_article_url e cat w1 in
           case find_cache_entry (cache_table w1) cat of
             None \<Rightarrow> Inr ((True, None), w2)
           | Some cache_entry \<Rightarrow>
               (let (now, w3) = utcnow e w2; cache_age = now - cached_at cache_entry in
                if four_hours < cache_age then Inr ((True, latest_article_url cache_entry), w3)
                else if latest_article_url cache_entry \<noteq> current_latest_url
                then Inr ((True, latest_article_url cache_entry), w3)
                else Inr ((False, latest_article_url cache_entry), w3))))"

text \<open>The \<open>enumerate\<close> loop of \<open>get_incremental_articles\<close>, left at the first match.\<close>

fun find_cached_index :: "string \<Rightarrow> nat \<Rightarrow> stub list \<Rightarrow> nat option" where
  "find_cached_index latest_cached_url i [] = None"
| "find_cached_index latest_cached_url i (a # rest) =
     (if url a = latest_cached_url then Some i
      else find_cached_index latest_cached_url (Suc i) rest)"

definition get_incremental_articles ::
  "env \<Rightarrow> string \<Rightarrow> string \<Rightarrow> int \<Rightarrow> world \<Rightarrow> stub list \<times> world" where
  "get_incremental_articles e cat latest_cached_url limit w =
     (let (all_articles, w1) = get_category_articles e cat (limit * 3) w in
      (case find_cached_index latest_cached_url 0 all_articles of
         Some cached_index \<Rightarrow> take cached_index all_articles
       | None \<Rightarrow> py_slice_to limit all_articles, w1))"

text \<open>
  \<open>store_articles_in_db\<close>. The primary key of a new row is one more than the largest
  key in the table; \<open>scraped_at\<close> takes its default, the clock at the insert. Per article
  the database is reached by the query, and for a new article also by \<open>commit\<close> and
  \<open>refresh\<close>.
\<close>

definition next_id :: "article_row list \<Rightarrow> nat" where
  "next_id rows = Suc (fold max (map row_id rows) 0)"

definition opt_str :: "string option \<Rightarrow> string" where
  "opt_str v = (case v of None \<Rightarrow> [] | Some s \<Rightarrow> s)"

definition new_article_row :: "env \<Rightarrow> world \<Rightarrow> article \<Rightarrow> article_row" where
  "new_article_row e w article_data =
     \<lparr>row_id = next_id (article_table w), row_url = url article_data,
      row_category = category article_data, row_title = title article_data,
      row_summary = opt_str (summary article_data), row_content = content article_data,
      row_content_hash = opt_str (content_hash article_data),
      row_scraped_at = utcnow_at e (tick w)\<rparr>"

fun store_loop :: "env \<Rightarrow> article list \<Rightarrow> nat list \<Rightarrow> world \<Rightarrow> error + (nat list \<times> world)" where
  "store_loop e [] article_ids w = Inr (article_ids, w)"
| "store_loop e (article_data # rest) article_ids w =
     (case db_access e w of
        Inl err \<Rightarrow> Inl err
      | Inr w1 \<Rightarrow>
          (case find_article_by_url (article_table w1) (url article_data) of
             Some existing \<Rightarrow> store_loop e rest (article_ids @ [row_id existing]) w1
           | None \<Rightarrow>
               (case db_access e w1 of
                  Inl err \<Rightarrow> Inl err
                | Inr w2 \<Rightarrow>
                    (let row = new_article_row e w1 article_data;
                         w3 = w2\<lparr>article_table := article_table w2 @ [row]\<rparr>
                     in case db_access e w3 of
                          Inl err \<Rightarrow> Inl err
                        | Inr w4 \<Rightarrow> store_loop e rest (article_ids @ [row_id row]) w4))))"

definition store_articles_in_db ::
  "env \<Rightarrow> article list \<Rightarrow> world \<Rightarrow> error + (nat list \<times> world)" where
  "store_articles_in_db e articles_with_content w = store_loop e articles_with_content [] w"

fun update_first :: "('a \<Rightarrow> bool) \<Rightarrow> ('a \<Rightarrow> 'a) \<Rightarrow> 'a list \<Rightarrow> 'a list" where
  "update_first p f [] = []"
| "update_first p f (x # xs) = (if p x then f x # xs else x # update_first p f xs)"

definition update_category_cache ::
  "env \<Rightarrow> string \<Rightarrow> nat list \<Rightarrow> string \<Rightarrow> world \<Rightarrow> error + world" where
  "update_category_cache e cat article_ids latest_url w =
     (case db_access e w of
        Inl err \<Rightarrow> Inl err
      | Inr w1 \<Rightarrow>
          (let (now, w2) = utcnow e w1 in
           case find_cache_entry (cache_table w2) cat of
             Some cache_entry \<Rightarrow>
               db_access e
                 (w2\<lparr>cache_table :=
                       update_first (\<lambda>c. category_name c = cat)
                         (\<lambda>c. c\<lparr>latest_article_url := Some latest_url,
                                 cached_articles_json := article_ids, cached_at := now\<rparr>)
                         (cache_table w2)\<rparr>)
           | None \<Rightarrow>
               db_access e
                 (w2\<lparr>cache_table := cache_table w2 @
                       [\<lparr>category_name = cat, latest_article_url = Some latest_url,
                         cached_articles_json = article_ids, cached_at = now\<rparr>]\<rparr>)))"

subsection \<open>\<open>get_articles_with_cache\<close>, one category\<close>

definition with_category :: "content_dict \<Rightarrow> string \<Rightarrow> article" where
  "with_category article_content cat =
     \<lparr>url = cd_url article_content, title = cd_title article_content, category = cat,
      content = cd_content article_content,
      content_hash = Some (cd_content_hash article_content),
      heading = None, summary = None, scraped_at = None\<rparr>"

text \<open>The loop that resolves the new links; a link without content is dropped.\<close>

fun fetch_contents ::
  "env \<Rightarrow> string \<Rightarrow> stub list \<Rightarrow> article list \<Rightarrow> world \<Rightarrow> article list \<times> world" where
  "fetch_contents e cat [] new_articles_with_content w = (new_articles_with_content, w)"
| "fetch_contents e cat (article_link # rest) new_articles_with_content w =
     (case get_article_content e (url article_link) w of
        (Some article_content, w1) \<Rightarrow>
          fetch_contents e cat rest
            (new_articles_with_content @ [with_category article_content cat]) w1
      | (None, w1) \<Rightarrow> fetch_contents e cat rest new_articles_with_content w1)"

text \<open>Summarizing one article that has content sets its \<open>heading\<close> and \<open>summary\<close>.\<close>

definition summarize_article :: "env \<Rightarrow> article \<Rightarrow> world \<Rightarrow> article \<times> world" where
  "summarize_article e a w =
     (if content a \<noteq> []
      then (let (h, s) = summary_at e (tick w) (content a) (title a)
            in (a\<lparr>heading := Some h, summary := Some s\<rparr>, advance w))
      else (a, w))"

fun summarize_all :: "env \<Rightarrow> article list \<Rightarrow> world \<Rightarrow> article list \<times> world" where
  "summarize_all e [] w = ([], w)"
| "summarize_all e (a # rest) w =
     (let (a', w1) = summarize_article e a w;
          (rest', w2) = summarize_all e rest w1
      in (a' # rest', w2))"

text \<open>
  The links to resolve and the cached articles to merge with: incremental when
  \<open>latest_cached_url\<close> is truthy (neither \<open>None\<close> nor empty), a full fetch otherwise.
\<close>

definition gather ::
  "env \<Rightarrow> int \<Rightarrow> string \<Rightarrow> string option \<Rightarrow> world
     \<Rightarrow> error + ((stub list \<times> article list) \<times> world)" where
  "gather e limit cat latest_cached_url w =
     (if latest_cached_url \<noteq> None \<and> latest_cached_url \<noteq> Some []
      then (let (new_article_links, w1) =
                   get_incremental_articles e cat (opt_str latest_cached_url) limit w
            in case get_cached_articles e cat w1 of
                 Inl err \<Rightarrow> Inl err
               | Inr (cached, w2) \<Rightarrow>
                   Inr ((new_article_links, (case cached of None \<Rightarrow> [] | Some xs \<Rightarrow> xs)), w2))
      else (let (new_article_links, w1) = get_category_articles e cat limit w
            in Inr ((new_article_links, []), w1)))"

definition merge_articles :: "article list \<Rightarrow> article list \<Rightarrow> article list" where
  "merge_articles new_articles_with_content cached_articles =
     new_articles_with_content @
     (if cached_articles \<noteq> []
      then filter (\<lambda>a. url a \<notin> url ` set new_articles_with_content) cached_articles
      else [])"

text \<open>The loop of the top-up pass, with \<open>final_articles\<close> and \<open>existing_urls\<close>.\<close>

fun top_up_loop ::
  "env \<Rightarrow> int \<Rightarrow> string \<Rightarrow> stub list \<Rightarrow> article list \<times> string set \<Rightarrow> world
     \<Rightarrow> (article list \<times> string set) \<times> world" where
  "top_up_loop e limit cat [] acc w = (acc, w)"
| "top_up_loop e limit cat (article_link # rest) (final_articles, existing_urls) w =
     (if limit \<le> int (length final_articles) then ((final_articles, existing_urls), w)
      else if url article_link \<notin> existing_urls
      then (case get_article_content e (url article_link) w of
              (Some article_content, w1) \<Rightarrow>
                (let (a, w2) = summarize_article e (with_category article_content cat) w1
                 in top_up_loop e limit cat rest
                      (final_articles @ [a], insert (url article_link) existing_urls) w2)
            | (None, w1) \<Rightarrow> top_up_loop e limit cat rest (final_articles, existing_urls) w1)
      else top_up_loop e limit cat rest (final_articles, existing_urls) w)"

definition top_up ::
  "env \<Rightarrow> int \<Rightarrow> string \<Rightarrow> article list \<Rightarrow> article list \<Rightarrow> world \<Rightarrow> article list \<times> world" where
  "top_up e limit cat all_articles new_articles_with_content w =
     (let final_articles = py_slice_to limit all_articles in
      if int (length final_articles) < limit \<and> int (length new_articles_with_content) < limit
      then (let (additional_links, w1) = get_category_articles e cat (limit * 2) w;
                (acc, w2) = top_up_loop e limit cat additional_links
                              (final_articles, url ` set all_articles) w1
            in (fst acc, w2))
      else (final_articles, w))"

definition persist :: "env \<Rightarrow> string \<Rightarrow> article list \<Rightarrow> world \<Rightarrow> error + world" where
  "persist e cat final_articles w =
     (let articles_to_store = filter (\<lambda>a. content a \<noteq> []) final_articles in
      if articles_to_store \<noteq> []
      then (case store_articles_in_db e articles_to_store w of
              Inl err \<Rightarrow> Inl err
            | Inr (article_ids, w1) \<Rightarrow>
                (case final_articles of
                   [] \<Rightarrow> Inr w1
                 | first # _ \<Rightarrow> update_category_cache e cat article_ids (url first) w1))
      else Inr w)"

text \<open>The body of the loop from \<open>#Need to fetch new articles\<close> on; its value is \<open>final_articles\<close>.\<close>

definition refresh_category ::
  "env \<Rightarrow> int \<Rightarrow> string \<Rightarrow> string option \<Rightarrow> world \<Rightarrow> error + (article list \<times> world)" where
  "refresh_category e limit cat latest_cached_url w =
     (case gather e limit cat latest_cached_url w of
        Inl err \<Rightarrow> Inl err
      | Inr ((new_article_links, cached_articles), w1) \<Rightarrow>
          (let (fetched, w2) = fetch_contents e cat new_article_links [] w1;
               (new_articles_with_content, w3) = summarize_all e fetched w2;
               all_articles = merge_articles new_articles_with_content cached_articles;
               (final_articles, w4) =
                  top_up e limit cat all_articles new_articles_with_content w3
           in case persist e cat final_articles w4 of
                Inl err \<Rightarrow> Inl err
              | Inr w5 \<Rightarrow> Inr (final_articles, w5)))"

text \<open>One iteration of the loop over the categories; its value is \<open>results[category]\<close>.\<close>

definition process_category ::
  "env \<Rightarrow> int \<Rightarrow> string \<Rightarrow> world \<Rightarrow> error + (article list \<times> world)" where
  "process_category e limit cat w =
     (case should_update_cache e cat w of
        Inl err \<Rightarrow> Inl err
      | Inr ((should_update, latest_cached_url), w1) \<Rightarrow>
          if \<not> should_update
          then (case get_cached_articles e cat w1 of
                  Inl err \<Rightarrow> Inl err
                | Inr (Some (a # as), w2) \<Rightarrow> Inr (py_slice_to limit (a # as), w2)
                | Inr (_, w2) \<Rightarrow> refresh_category e limit cat latest_cached_url w2)
          else refresh_category e limit cat latest_cached_url w1)"

subsection \<open>\<open>get_articles_with_cache\<close>\<close>

text \<open>
  The loop over the categories stands in a \<open>try ... finally\<close> without an \<open>except\<close>
  clause: an exception of one iteration ends the call.
\<close>

text \<open>
  The dictionary \<open>results\<close> is an association list in insertion order:
  \<open>results[category] = v\<close> is \<open>AList.update\<close> (a present key keeps its place, a new
  key goes to the end) and a lookup is \<open>map_of\<close>.
\<close>

fun categories_loop ::
  "env \<Rightarrow> int \<Rightarrow> string list \<Rightarrow> (string \<times> article list) list \<Rightarrow> world
     \<Rightarrow> error + ((string \<times> article list) list \<times> world)" where
  "categories_loop e limit [] results w = Inr (results, w)"
| "categories_loop e limit (cat # rest) results w =
     (case process_category e limit cat w of
        Inl err \<Rightarrow> Inl err
      | Inr (final_articles, w1) \<Rightarrow>
          categories_loop e limit rest (AList.update cat final_articles results) w1)"

definition get_articles_with_cache ::
  "env \<Rightarrow> string list \<Rightarrow> int \<Rightarrow> world
     \<Rightarrow> error + ((string \<times> article list) list \<times> world)" where
  "get_articles_with_cache e categories limit_per_category w =
     categories_loop e limit_per_category categories [] w"

subsection \<open>The stores the code fills\<close>

text \<open>
  An article row is written in one place, \<open>store_articles_in_db\<close>, and
  \<open>get_articles_with_cache\<close> hands it only the articles that have content; no row is
  ever updated or deleted. So in every store that the code itself has filled, starting
  from the empty one, each article row has content.
\<close>

definition articles_have_content :: "world \<Rightarrow> bool" where
  "articles_have_content w = (\<forall>r \<in> set (article_table w). row_content r \<noteq> [])"

section \<open>Concrete inputs\<close>

text \<open>Three stubs whose titles overlap in a chain: the first with the second, the second
  with the third, the first not with the third.\<close>

definition ex_stub_a :: stub where
  "ex_stub_a = \<lparr>url = ''https://indianexpress.com/article/a'',
                 title = ''Alpha Beta Gamma Delta'', category = ''india''\<rparr>"

definition ex_stub_b :: stub where
  "ex_stub_b = \<lparr>url = ''https://indianexpress.com/article/b'',
                 title = ''Beta Gamma Delta Epsilon'', category = ''india''\<rparr>"

definition ex_stub_c :: stub where
  "ex_stub_c = \<lparr>url = ''https://indianexpress.com/article/c'',
                 title = ''Gamma Delta Epsilon Zeta'', category = ''india''\<rparr>"

text \<open>A listing page with three headline links, and a world in which every request
  succeeds, the clock advances one second per interaction and the database never fails.\<close>

definition ex_page :: page where
  "ex_page =
     \<lparr>headline_links =
        [\<lparr>href = ''/article/india/budget-bill-1/'', link_title = ''Parliament passes the budget bill''\<rparr>,
         \<lparr>href = ''/article/india/monsoon-2/'', link_title = ''Monsoon arrives early in Kerala''\<rparr>,
         \<lparr>href = ''/article/india/coach-3/'', link_title = ''Cricket board names new coach''\<rparr>],
      all_links = []\<rparr>"

definition ex_env :: env where
  "ex_env =
     \<lparr>page_at = (\<lambda>t u. Some ex_page),
      content_at = (\<lambda>t u. Some \<lparr>scraped_title = ''A story'', scraped_content = ''Body of the story.''\<rparr>),
      summary_at = (\<lambda>t c ttl. (take 60 ttl, take 500 c)),
      utcnow_at = (\<lambda>t. 1000000 * int t),
      db_ok_at = (\<lambda>t. True),
      sha256_hex = (\<lambda>s. ''0f'')\<rparr>"

definition ex_world :: world where
  "ex_world = \<lparr>article_table = [], cache_table = [], tick = 0, content_requests = []\<rparr>"

definition ex_listing :: "stub list" where
  "ex_listing =
     [\<lparr>url = ''https://indianexpress.com/article/india/budget-bill-1/'',
       title = ''Parliament passes the budget bill'', category = ''india''\<rparr>,
      \<lparr>url = ''https://indianexpress.com/article/india/monsoon-2/'',
       title = ''Monsoon arrives early in Kerala'', category = ''india''\<rparr>,
      \<lparr>url = ''https://indianexpress.com/article/india/coach-3/'',
       title = ''Cricket board names new coach'', category = ''india''\<rparr>]"

text \<open>An environment in which no request succeeds, a stored article with a fresh cache
  entry that points to it, and the same article as fetched anew.\<close>

definition ex_offline :: env where
  "ex_offline =
     \<lparr>page_at = (\<lambda>t u. None),
      content_at = (\<lambda>t u. None),
      summary_at = (\<lambda>t c ttl. (take 60 ttl, take 500 c)),
      utcnow_at = (\<lambda>t. 1000000 * int t),
      db_ok_at = (\<lambda>t. True),
      sha256_hex = (\<lambda>s. ''0f'')\<rparr>"

definition ex_row :: article_row where
  "ex_row =
     \<lparr>row_id = 1, row_url = ''https://indianexpress.com/article/india/budget-bill-1/'',
      row_category = ''india'', row_title = ''Parliament passes the budget bill'',
      row_summary = ''The bill was passed.'', row_content = ''Body of the story.'',
      row_content_hash = ''0f'', row_scraped_at = 0\<rparr>"

definition ex_cached :: world where
  "ex_cached =
     \<lparr>article_table = [ex_row],
      cache_table =
        [\<lparr>category_name = ''india'',
          latest_article_url = Some ''https://indianexpress.com/article/india/budget-bill-1/'',
          cached_articles_json = [1], cached_at = 0\<rparr>],
      tick = 0, content_requests = []\<rparr>"


text \<open>An environment whose requests all fail and whose database fails from the fifth
  interaction on.\<close>

definition ex_db_fails :: env where
  "ex_db_fails = ex_offline\<lparr>db_ok_at := (\<lambda>t. t < 4)\<rparr>"

text \<open>The value of \<open>get_articles_with_cache\<close> for the category \<open>india\<close> and one article,
  in the world where every request succeeds and nothing is stored yet.\<close>

definition ex_results :: "(string \<times> article list) list" where
  "ex_results =
     [(''india'',
       [\<lparr>url = ''https://indianexpress.com/article/india/budget-bill-1/'',
         title = ''A story'', category = ''india'',
         content = ''Body of the story.'', content_hash = Some ''0f'',
         heading = Some ''A story'', summary = Some ''Body of the story.'',
         scraped_at = None\<rparr>])]"

definition ex_final :: world where
  "ex_final =
     \<lparr>article_table =
        [\<lparr>row_id = 1, row_url = ''https://indianexpress.com/article/india/budget-bill-1/'',
          row_category = ''india'', row_title = ''A story'',
          row_summary = ''Body of the story.'', row_content = ''Body of the story.'',
          row_content_hash = ''0f'', row_scraped_at = 6000000\<rparr>],
      cache_table =
        [\<lparr>category_name = ''india'',
          latest_article_url = Some ''https://indianexpress.com/article/india/budget-bill-1/'',
          cached_articles_json = [1], cached_at = 9000000\<rparr>],
      tick = 11,
      content_requests = [''https://indianexpress.com/article/india/budget-bill-1/'']\<rparr>"

text \<open>Its value for two categories when every request fails and \<open>india\<close> has a cached
  article.\<close>

definition ex_offline_results :: "(string \<times> article list) list" where
  "ex_offline_results = [(''india'', [row_to_dict ex_row]), (''world'', [])]"

definition ex_offline_final :: world where
  "ex_offline_final =
     \<lparr>article_table = [ex_row],
      cache_table =
        [\<lparr>category_name = ''india'',
          latest_article_url = Some ''https://indianexpress.com/article/india/budget-bill-1/'',
          cached_articles_json = [1], cached_at = 10000000\<rparr>],
      tick = 16, content_requests = []\<rparr>"


text \<open>The state \<open>ex_final\<close> with its article record gone and an empty request log.\<close>

definition ex_dangling :: world where
  "ex_dangling = ex_final\<lparr>article_table := [], content_requests := []\<rparr>"

section \<open>Properties of the near-duplicate filter\<close>

lemma similar_sym: "similar a b = similar b a"
  by (auto simp: similar_def Int_commute max.commute)

lemma dedup_loop_append:
  "dedup_loop (xs @ ys) acc = dedup_loop ys (dedup_loop xs acc)"
proof (induction xs arbitrary: acc)
  case Nil
  show ?case by simp
next
  case (Cons x xs)
  obtain u seen where acc: "acc = (u, seen)" by (cases acc)
  show ?case unfolding acc by (simp add: Let_def Cons.IH)
qed

lemma dedup_loop_seen:
  "dedup_loop xs (u, seen) = (r, seen') \<Longrightarrow>
     seen = (\<lambda>a. normalize_title (title a)) ` set u \<Longrightarrow>
     seen' = (\<lambda>a. normalize_title (title a)) ` set r"
proof (induction xs arbitrary: u seen)
  case Nil
  then show ?case by auto
next
  case (Cons x xs)
  show ?case
  proof (cases "is_duplicate seen (set (py_split (normalize_title (title x))))")
    case True
    with Cons.prems(1) have "dedup_loop xs (u, seen) = (r, seen')" by (simp add: Let_def)
    from Cons.IH [OF this Cons.prems(2)] show ?thesis .
  next
    case False
    with Cons.prems(1)
    have step: "dedup_loop xs (u @ [x], insert (normalize_title (title x)) seen) = (r, seen')"
      by (simp add: Let_def)
    have "insert (normalize_title (title x)) seen
            = (\<lambda>a. normalize_title (title a)) ` set (u @ [x])"
      using Cons.prems(2) by auto
    from Cons.IH [OF step this] show ?thesis .
  qed
qed

lemma dedup_loop_extends:
  "\<exists>ys. fst (dedup_loop xs (u, seen)) = u @ ys \<and> subseq ys xs"
proof (induction xs arbitrary: u seen)
  case Nil
  show ?case by simp
next
  case (Cons x xs)
  show ?case
  proof (cases "is_duplicate seen (set (py_split (normalize_title (title x))))")
    case True
    from Cons.IH [of u seen] obtain ys
      where "fst (dedup_loop xs (u, seen)) = u @ ys" "subseq ys xs" by blast
    with True show ?thesis by (auto simp: Let_def)
  next
    case False
    from Cons.IH [of "u @ [x]" "insert (normalize_title (title x)) seen"] obtain ys
      where "fst (dedup_loop xs (u @ [x], insert (normalize_title (title x)) seen))
               = (u @ [x]) @ ys" "subseq ys xs" by blast
    with False show ?thesis by (auto simp: Let_def intro!: exI [of _ "x # ys"])
  qed
qed

lemma deduplicate_articles_loop:
  "deduplicate_articles xs = fst (dedup_loop xs ([], {}))"
  by (simp add: deduplicate_articles_def)

lemma deduplicate_articles_subseq: "subseq (deduplicate_articles xs) xs"
  using dedup_loop_extends [of xs "[]" "{}"] by (auto simp: deduplicate_articles_loop)

lemma dedup_loop_dissimilar:
  "sorted_wrt (\<lambda>a b. \<not> similar (title_tokens b) (title_tokens a)) u \<Longrightarrow>
   seen = (\<lambda>a. normalize_title (title a)) ` set u \<Longrightarrow>
   sorted_wrt (\<lambda>a b. \<not> similar (title_tokens b) (title_tokens a))
     (fst (dedup_loop xs (u, seen)))"
proof (induction xs arbitrary: u seen)
  case Nil
  then show ?case by simp
next
  case (Cons x xs)
  show ?case
  proof (cases "is_duplicate seen (set (py_split (normalize_title (title x))))")
    case True
    with Cons.IH [OF Cons.prems] show ?thesis by (auto simp: Let_def)
  next
    case False
    with Cons.prems(2) have "\<forall>a \<in> set u. \<not> similar (title_tokens x) (title_tokens a)"
      by (auto simp: title_tokens_def is_duplicate_def)
    with Cons.prems(1)
    have s: "sorted_wrt (\<lambda>a b. \<not> similar (title_tokens b) (title_tokens a)) (u @ [x])"
      by (simp add: sorted_wrt_append)
    have "insert (normalize_title (title x)) seen
            = (\<lambda>a. normalize_title (title a)) ` set (u @ [x])"
      using Cons.prems(2) by auto
    from Cons.IH [OF s this] False show ?thesis by (simp add: Let_def)
  qed
qed

lemma deduplicate_articles_dissimilar:
  "sorted_wrt (\<lambda>a b. \<not> similar (title_tokens b) (title_tokens a)) (deduplicate_articles xs)"
  using dedup_loop_dissimilar [of "[]" "{}" xs] by (simp add: deduplicate_articles_loop)

lemma deduplicate_articles_snoc:
  "deduplicate_articles (pre @ [x]) =
     (if \<exists>y \<in> set (deduplicate_articles pre). similar (title_tokens x) (title_tokens y)
      then deduplicate_articles pre else deduplicate_articles pre @ [x])"
proof -
  obtain r seen where r: "dedup_loop pre ([], {}) = (r, seen)"
    by (cases "dedup_loop pre ([], {})")
  from dedup_loop_seen [OF r] have seen: "seen = (\<lambda>a. normalize_title (title a)) ` set r"
    by simp
  have "dedup_loop (pre @ [x]) ([], {}) = dedup_loop [x] (r, seen)"
    by (simp only: dedup_loop_append r)
  then show ?thesis
    using r seen
    by (auto simp: deduplicate_articles_loop Let_def title_tokens_def is_duplicate_def)
qed

lemma deduplicate_articles_prefix:
  "prefix (deduplicate_articles pre) (deduplicate_articles (pre @ post))"
proof -
  obtain r seen where r: "dedup_loop pre ([], {}) = (r, seen)"
    by (cases "dedup_loop pre ([], {})")
  from dedup_loop_extends [of post r seen] obtain ys
    where "fst (dedup_loop post (r, seen)) = r @ ys" by blast
  then show ?thesis
    by (simp add: deduplicate_articles_loop dedup_loop_append r)
qed

text \<open>
  Claim C3, as far as the code goes. The filter returns a subsequence of its input in the
  input's order; no two kept stubs have a token overlap above 0.7 (for kept stubs at
  positions \<open>i < j\<close> the later one is the candidate and the earlier one the kept title);
  and first-seen survives in this sense: what was kept of a prefix of the input stays
  kept, and the stub that follows the prefix is dropped exactly when its overlap with a
  stub kept from that prefix exceeds 0.7. A stub that was itself dropped suppresses
  nothing.
\<close>

theorem near_duplicate_filter:
  "subseq (deduplicate_articles xs) xs
   \<and> (\<forall>i j. i < j \<and> j < length (deduplicate_articles xs) \<longrightarrow>
         \<not> similar (title_tokens (deduplicate_articles xs ! j))
                     (title_tokens (deduplicate_articles xs ! i)))
   \<and> (\<forall>pre x post. xs = pre @ x # post \<longrightarrow>
         prefix (deduplicate_articles pre) (deduplicate_articles xs)
         \<and> deduplicate_articles (pre @ [x]) =
             (if \<exists>y \<in> set (deduplicate_articles pre). similar (title_tokens x) (title_tokens y)
              then deduplicate_articles pre else deduplicate_articles pre @ [x]))"
proof (intro conjI allI impI)
  show "subseq (deduplicate_articles xs) xs" by (rule deduplicate_articles_subseq)
next
  fix i j
  assume "i < j \<and> j < length (deduplicate_articles xs)"
  with deduplicate_articles_dissimilar [of xs]
  show "\<not> similar (title_tokens (deduplicate_articles xs ! j))
                   (title_tokens (deduplicate_articles xs ! i))"
    by (auto simp: sorted_wrt_iff_nth_less)
next
  fix pre x post
  assume "xs = pre @ x # post"
  then show "prefix (deduplicate_articles pre) (deduplicate_articles xs)"
    using deduplicate_articles_prefix [of pre "x # post"] by simp
next
  fix pre x post
  show "deduplicate_articles (pre @ [x]) =
          (if \<exists>y \<in> set (deduplicate_articles pre). similar (title_tokens x) (title_tokens y)
           then deduplicate_articles pre else deduplicate_articles pre @ [x])"
    by (rule deduplicate_articles_snoc)
qed

theorem near_duplicate_filter_witness:
  "subseq (deduplicate_articles [ex_stub_a, ex_stub_b, ex_stub_c])
          [ex_stub_a, ex_stub_b, ex_stub_c]
   \<and> (0::nat) < 1 \<and> 1 < length (deduplicate_articles [ex_stub_a, ex_stub_b, ex_stub_c])
   \<and> \<not> similar (title_tokens (deduplicate_articles [ex_stub_a, ex_stub_b, ex_stub_c] ! 1))
                 (title_tokens (deduplicate_articles [ex_stub_a, ex_stub_b, ex_stub_c] ! 0))
   \<and> [ex_stub_a, ex_stub_b, ex_stub_c] = [ex_stub_a] @ ex_stub_b # [ex_stub_c]
   \<and> prefix (deduplicate_articles [ex_stub_a])
             (deduplicate_articles [ex_stub_a, ex_stub_b, ex_stub_c])
   \<and> (\<exists>y \<in> set (deduplicate_articles [ex_stub_a]).
          similar (title_tokens ex_stub_b) (title_tokens y))
   \<and> deduplicate_articles ([ex_stub_a] @ [ex_stub_b]) = deduplicate_articles [ex_stub_a]"
proof -
  note T = near_duplicate_filter [of "[ex_stub_a, ex_stub_b, ex_stub_c]"]
  have ev: "deduplicate_articles [ex_stub_a, ex_stub_b, ex_stub_c] = [ex_stub_a, ex_stub_c]"
    by code_simp
  have len: "(0::nat) < 1 \<and> 1 < length (deduplicate_articles [ex_stub_a, ex_stub_b, ex_stub_c])"
    by (simp add: ev)
  have dec: "[ex_stub_a, ex_stub_b, ex_stub_c] = [ex_stub_a] @ ex_stub_b # [ex_stub_c]"
    by simp
  have dup: "\<exists>y \<in> set (deduplicate_articles [ex_stub_a]).
               similar (title_tokens ex_stub_b) (title_tokens y)"
    by code_simp
  from T have sub: "subseq (deduplicate_articles [ex_stub_a, ex_stub_b, ex_stub_c])
                           [ex_stub_a, ex_stub_b, ex_stub_c]"
    by (rule conjunct1)
  from T [THEN conjunct2, THEN conjunct1, rule_format, OF len]
  have dis: "\<not> similar (title_tokens (deduplicate_articles [ex_stub_a, ex_stub_b, ex_stub_c] ! 1))
                        (title_tokens (deduplicate_articles [ex_stub_a, ex_stub_b, ex_stub_c] ! 0))" .
  from T [THEN conjunct2, THEN conjunct2, rule_format, OF dec]
  have pre: "prefix (deduplicate_articles [ex_stub_a])
                    (deduplicate_articles [ex_stub_a, ex_stub_b, ex_stub_c])"
    and snoc: "deduplicate_articles ([ex_stub_a] @ [ex_stub_b]) =
                 (if \<exists>y \<in> set (deduplicate_articles [ex_stub_a]).
                        similar (title_tokens ex_stub_b) (title_tokens y)
                  then deduplicate_articles [ex_stub_a]
                  else deduplicate_articles [ex_stub_a] @ [ex_stub_b])"
    by blast+
  from snoc dup have "deduplicate_articles ([ex_stub_a] @ [ex_stub_b]) =
                        deduplicate_articles [ex_stub_a]"
    by (simp only: if_True)
  with sub len dis dec pre dup show ?thesis by blast
qed

text \<open>
  Claim C3 as it is written also says that of any pair above the threshold the
  earlier-positioned stub is the one kept. In the chain of three stubs the second and the
  third exceed the threshold, the second is dropped (it is too close to the first) and the
  third, the later of the pair, is kept.
\<close>

theorem near_duplicate_filter_counterexample:
  "similar (title_tokens ex_stub_c) (title_tokens ex_stub_b)
   \<and> deduplicate_articles [ex_stub_a, ex_stub_b, ex_stub_c] = [ex_stub_a, ex_stub_c]
   \<and> ex_stub_b \<notin> set (deduplicate_articles [ex_stub_a, ex_stub_b, ex_stub_c])
   \<and> ex_stub_c \<in> set (deduplicate_articles [ex_stub_a, ex_stub_b, ex_stub_c])"
  by code_simp

section \<open>Properties of the listing fetcher\<close>

lemma headline_loop_step:
  "headline_loop limit cat (l # links) (arts, found) =
     headline_loop limit cat links (arts, found)
   \<or> (\<exists>u t. u \<notin> found \<and> int (card found) < limit * 2 \<and>
        headline_loop limit cat (l # links) (arts, found) =
          headline_loop limit cat links
            (arts @ [\<lparr>url = u, title = t, category = cat\<rparr>], insert u found))"
  by (fastforce simp: Let_def split: option.splits)

lemma fallback_loop_step:
  "fallback_loop limit cat (l # links) (arts, found) = (arts, found)
   \<or> fallback_loop limit cat (l # links) (arts, found) =
        fallback_loop limit cat links (arts, found)
   \<or> (\<exists>u t. u \<notin> found \<and> int (length arts) < limit \<and>
        fallback_loop limit cat (l # links) (arts, found) =
          fallback_loop limit cat links
            (arts @ [\<lparr>url = u, title = t, category = cat\<rparr>], insert u found))"
  by (fastforce simp: Let_def split: option.splits)

lemma headline_loop_distinct:
  "found = url ` set arts \<Longrightarrow> distinct (map url arts) \<Longrightarrow>
   headline_loop limit cat links (arts, found) = (arts', found') \<Longrightarrow>
   found' = url ` set arts' \<and> distinct (map url arts')"
proof (induction links arbitrary: arts found)
  case Nil
  then show ?case by auto
next
  case (Cons l links)
  from headline_loop_step [of limit cat l links arts found]
  show ?case
  proof (elim disjE exE conjE)
    assume "headline_loop limit cat (l # links) (arts, found) =
              headline_loop limit cat links (arts, found)"
    with Cons.prems(3) have "headline_loop limit cat links (arts, found) = (arts', found')"
      by simp
    from Cons.IH [OF Cons.prems(1,2) this] show ?thesis .
  next
    fix u t
    assume u: "u \<notin> found"
      and step: "headline_loop limit cat (l # links) (arts, found) =
                   headline_loop limit cat links
                     (arts @ [\<lparr>url = u, title = t, category = cat\<rparr>], insert u found)"
    from step Cons.prems(3)
    have run: "headline_loop limit cat links
                 (arts @ [\<lparr>url = u, title = t, category = cat\<rparr>], insert u found)
               = (arts', found')" by simp
    have f: "insert u found = url ` set (arts @ [\<lparr>url = u, title = t, category = cat\<rparr>])"
      using Cons.prems(1) by auto
    have d: "distinct (map url (arts @ [\<lparr>url = u, title = t, category = cat\<rparr>]))"
      using Cons.prems(1,2) u by auto
    from Cons.IH [OF f d run] show ?thesis .
  qed
qed

lemma fallback_loop_distinct:
  "found = url ` set arts \<Longrightarrow> distinct (map url arts) \<Longrightarrow>
   fallback_loop limit cat links (arts, found) = (arts', found') \<Longrightarrow>
   found' = url ` set arts' \<and> distinct (map url arts')"
proof (induction links arbitrary: arts found)
  case Nil
  then show ?case by auto
next
  case (Cons l links)
  from fallback_loop_step [of limit cat l links arts found]
  show ?case
  proof (elim disjE exE conjE)
    assume "fallback_loop limit cat (l # links) (arts, found) = (arts, found)"
    with Cons.prems show ?thesis by auto
  next
    assume "fallback_loop limit cat (l # links) (arts, found) =
              fallback_loop limit cat links (arts, found)"
    with Cons.prems(3) have "fallback_loop limit cat links (arts, found) = (arts', found')"
      by simp
    from Cons.IH [OF Cons.prems(1,2) this] show ?thesis .
  next
    fix u t
    assume u: "u \<notin> found"
      and step: "fallback_loop limit cat (l # links) (arts, found) =
                   fallback_loop limit cat links
                     (arts @ [\<lparr>url = u, title = t, category = cat\<rparr>], insert u found)"
    from step Cons.prems(3)
    have run: "fallback_loop limit cat links
                 (arts @ [\<lparr>url = u, title = t, category = cat\<rparr>], insert u found)
               = (arts', found')" by simp
    have f: "insert u found = url ` set (arts @ [\<lparr>url = u, title = t, category = cat\<rparr>])"
      using Cons.prems(1) by auto
    have d: "distinct (map url (arts @ [\<lparr>url = u, title = t, category = cat\<rparr>]))"
      using Cons.prems(1,2) u by auto
    from Cons.IH [OF f d run] show ?thesis .
  qed
qed

lemma headline_loop_nonpos:
  "limit \<le> 0 \<Longrightarrow> headline_loop limit cat links ([], {}) = ([], {})"
proof (induction links)
  case Nil
  show ?case by simp
next
  case (Cons l links)
  with headline_loop_step [of limit cat l links "[]" "{}"] show ?case by auto
qed

lemma collect_links_distinct: "distinct (map url (collect_links limit cat pg))"
proof -
  obtain arts found where h: "headline_loop limit cat (headline_links pg) ([], {}) = (arts, found)"
    by (cases "headline_loop limit cat (headline_links pg) ([], {})")
  from headline_loop_distinct [OF _ _ h] have inv: "found = url ` set arts" "distinct (map url arts)"
    by auto
  obtain arts' found' where f: "fallback_loop limit cat (all_links pg) (arts, found) = (arts', found')"
    by (cases "fallback_loop limit cat (all_links pg) (arts, found)")
  from fallback_loop_distinct [OF inv f] have "distinct (map url arts')" by simp
  with inv h f show ?thesis by (simp add: collect_links_def)
qed

lemma collect_links_nonpos: "limit \<le> 0 \<Longrightarrow> collect_links limit cat pg = []"
  by (simp add: collect_links_def headline_loop_nonpos)

lemma distinct_subseq:
  "subseq ys xs \<Longrightarrow> distinct xs \<Longrightarrow> distinct ys"
proof (induction rule: list_emb.induct)
  case (list_emb_Nil ys)
  show ?case by simp
next
  case (list_emb_Cons xs ys y)
  then show ?case by simp
next
  case (list_emb_Cons2 x y xs ys)
  then have "x \<notin> set ys" by simp
  moreover from list_emb_Cons2 have "set xs \<subseteq> set ys" by (auto dest: list_emb_set)
  ultimately show ?case using list_emb_Cons2 by auto
qed

lemma distinct_url_subseq:
  "subseq ys xs \<Longrightarrow> distinct (map url xs) \<Longrightarrow> distinct (map url ys)"
  by (rule distinct_subseq [OF subseq_map])

lemma distinct_url_slice:
  "distinct (map url xs) \<Longrightarrow> distinct (map url (py_slice_to n xs))"
  by (simp add: py_slice_to_def take_map [symmetric] del: take_map)

lemma get_category_articles_distinct:
  "distinct (map url (fst (get_category_articles e cat limit w)))"
  by (auto simp: get_category_articles_def split: option.splits
        intro!: distinct_url_slice distinct_url_subseq [OF deduplicate_articles_subseq]
                collect_links_distinct)

lemma get_category_articles_nonpos:
  "limit \<le> 0 \<Longrightarrow> fst (get_category_articles e cat limit w) = []"
  by (simp add: get_category_articles_def collect_links_nonpos deduplicate_articles_def
        py_slice_to_def split: option.splits)

lemma get_category_articles_length:
  "0 \<le> limit \<Longrightarrow> int (length (fst (get_category_articles e cat limit w))) \<le> limit"
  by (auto simp: get_category_articles_def py_slice_to_def split: option.splits)

lemma find_cached_index_present:
  "distinct (map url xs) \<Longrightarrow> k < length xs \<Longrightarrow>
   find_cached_index (url (xs ! k)) i xs = Some (i + k)"
proof (induction xs arbitrary: k i)
  case Nil
  then show ?case by simp
next
  case (Cons a xs)
  show ?case
  proof (cases k)
    case 0
    then show ?thesis by simp
  next
    case (Suc k')
    with Cons.prems have k': "k' < length xs" and d: "distinct (map url xs)"
      and ne: "url a \<noteq> url (xs ! k')" by auto
    from Cons.IH [OF d k', of "Suc i"] ne Suc show ?thesis by simp
  qed
qed

lemma find_cached_index_absent:
  "u \<notin> url ` set xs \<Longrightarrow> find_cached_index u i xs = None"
  by (induction xs arbitrary: i) auto

section \<open>The incremental fetch\<close>

text \<open>
  Claim C1. Let \<open>listing\<close> be what \<open>get_incremental_articles\<close> fetches, that is the value
  of \<open>get_category_articles(category, limit * 3)\<close>. If the fence-post url stands at index
  \<open>k\<close> of the listing, the new stubs are exactly the first \<open>k\<close> entries, and the
  fence-post url is not among them. Urls are unique in a listing, so \<open>k\<close> is the index the
  scan stops at.
\<close>

theorem fence_post_prefix:
  assumes "get_category_articles e cat (limit * 3) w = (listing, w1)"
    and "k < length listing"
    and "url (listing ! k) = fence_post"
  shows "get_incremental_articles e cat fence_post limit w = (take k listing, w1)
         \<and> fence_post \<notin> url ` set (take k listing)"
proof -
  from get_category_articles_distinct [of e cat "limit * 3" w] assms(1)
  have d: "distinct (map url listing)" by simp
  from find_cached_index_present [OF d assms(2), of 0] assms(3)
  have "find_cached_index fence_post 0 listing = Some k" by simp
  with assms(1) have run: "get_incremental_articles e cat fence_post limit w = (take k listing, w1)"
    by (simp add: get_incremental_articles_def)
  from d have "distinct (map url (take k listing @ drop k listing))" by simp
  moreover have "drop k listing = listing ! k # drop (Suc k) listing"
    using assms(2) by (simp add: Cons_nth_drop_Suc)
  ultimately have "url (listing ! k) \<notin> url ` set (take k listing)"
    by (simp only: map_append distinct_append list.map set_map) auto
  with run assms(3) show ?thesis by simp
qed

theorem fence_post_prefix_witness:
  "get_category_articles ex_env ''india'' (1 * 3) ex_world = (ex_listing, advance ex_world)
   \<and> (1::nat) < length ex_listing
   \<and> url (ex_listing ! 1) = ''https://indianexpress.com/article/india/monsoon-2/''
   \<and> get_incremental_articles ex_env ''india''
        ''https://indianexpress.com/article/india/monsoon-2/'' 1 ex_world
      = (take 1 ex_listing, advance ex_world)
   \<and> ''https://indianexpress.com/article/india/monsoon-2/'' \<notin> url ` set (take 1 ex_listing)"
proof -
  have a: "get_category_articles ex_env ''india'' (1 * 3) ex_world = (ex_listing, advance ex_world)"
    by code_simp
  have b: "(1::nat) < length ex_listing" by (simp add: ex_listing_def)
  have c: "url (ex_listing ! 1) = ''https://indianexpress.com/article/india/monsoon-2/''"
    by (simp add: ex_listing_def)
  note d = fence_post_prefix [OF a b c]
  show ?thesis by (intro conjI a b c d [THEN conjunct1] d [THEN conjunct2])
qed

text \<open>
  Claim C6. If the fence-post url is not in the fetched window (the value of
  \<open>get_category_articles(category, limit * 3)\<close>), the new stubs are exactly the first
  \<open>limit\<close> stubs of the window. (For \<open>limit \<le> 0\<close> the window is empty.)
\<close>

theorem fence_post_absent_top_n:
  assumes "get_category_articles e cat (limit * 3) w = (listing, w1)"
    and "fence_post \<notin> url ` set listing"
  shows "get_incremental_articles e cat fence_post limit w = (take (nat limit) listing, w1)"
proof -
  from find_cached_index_absent [OF assms(2)]
  have "find_cached_index fence_post 0 listing = None" .
  with assms(1)
  have run: "get_incremental_articles e cat fence_post limit w = (py_slice_to limit listing, w1)"
    by (simp add: get_incremental_articles_def)
  have "py_slice_to limit listing = take (nat limit) listing"
  proof (cases "0 \<le> limit")
    case True
    then show ?thesis by (simp add: py_slice_to_def)
  next
    case False
    then have "limit * 3 \<le> 0" by simp
    from get_category_articles_nonpos [OF this, of e cat w] assms(1)
    have "listing = []" by simp
    then show ?thesis by (simp add: py_slice_to_def)
  qed
  with run show ?thesis by simp
qed

theorem fence_post_absent_top_n_witness:
  "get_category_articles ex_env ''india'' (1 * 3) ex_world = (ex_listing, advance ex_world)
   \<and> ''https://indianexpress.com/article/india/scrolled-off-0/'' \<notin> url ` set ex_listing
   \<and> get_incremental_articles ex_env ''india''
        ''https://indianexpress.com/article/india/scrolled-off-0/'' 1 ex_world
      = (take (nat 1) ex_listing, advance ex_world)"
proof -
  have a: "get_category_articles ex_env ''india'' (1 * 3) ex_world = (ex_listing, advance ex_world)"
    by code_simp
  have b: "''https://indianexpress.com/article/india/scrolled-off-0/'' \<notin> url ` set ex_listing"
    by (simp add: ex_listing_def)
  note d = fence_post_absent_top_n [OF a b]
  show ?thesis by (intro conjI a b d)
qed

section \<open>Idempotent storage\<close>

lemma db_access_ok: "db_ok_at e (tick w) \<Longrightarrow> db_access e w = Inr (advance w)"
  by (simp add: db_access_def)

lemma advance_simps [simp]:
  "tick (advance w) = Suc (tick w)"
  "article_table (advance w) = article_table w"
  "cache_table (advance w) = cache_table w"
  "content_requests (advance w) = content_requests w"
  by (simp_all add: advance_def)




section \<open>The freshness decision when the listing cannot be fetched\<close>


lemma CATEGORIES_nonempty: "map_of CATEGORIES cat = Some cu \<Longrightarrow> cu \<noteq> []"
  by (auto simp: CATEGORIES_def split: if_splits)

lemma get_category_articles_offline:
  "map_of CATEGORIES cat = Some cu \<Longrightarrow> page_at e (tick w) cu = None \<Longrightarrow>
   get_category_articles e cat limit w = ([], advance w)"
  by (simp add: get_category_articles_def CATEGORIES_nonempty)

text \<open>
  Claim C9, as the code decides. The category has a cache entry whose stored url is
  \<open>fence_post\<close>; the request for the listing page made by \<open>get_latest_article_url\<close>
  fails. Then \<open>should_update_cache\<close> answers \<open>(True, fence_post)\<close>: a refresh is
  triggered, and it is run with the stored url as its fence-post, whether the entry is
  older than four hours or not.
\<close>

theorem unreachable_listing_decision:
  assumes "db_ok_at e (tick w)"
    and "find_cache_entry (cache_table w) cat = Some cache_entry"
    and "latest_article_url cache_entry = Some fence_post"
    and "map_of CATEGORIES cat = Some category_url"
    and "page_at e (Suc (tick w)) category_url = None"
  shows "should_update_cache e cat w = Inr ((True, Some fence_post), w\<lparr>tick := tick w + 3\<rparr>)
         \<and> process_category e limit cat w =
             refresh_category e limit cat (Some fence_post) (w\<lparr>tick := tick w + 3\<rparr>)"
proof -
  have "get_category_articles e cat 1 (advance w) = ([], advance (advance w))"
    using assms(4,5) by (simp add: get_category_articles_offline)
  then have latest: "get_latest_article_url e cat (advance w) = (None, advance (advance w))"
    by (simp add: get_latest_article_url_def)
  have adv: "advance (advance (advance w)) = w\<lparr>tick := tick w + 3\<rparr>"
    by (simp add: advance_def)
  have dec: "should_update_cache e cat w = Inr ((True, Some fence_post), w\<lparr>tick := tick w + 3\<rparr>)"
    using assms(2,3) latest adv
    by (simp add: should_update_cache_def db_access_ok [OF assms(1)] utcnow_def Let_def)
  then show ?thesis by (simp add: process_category_def)
qed


theorem unreachable_listing_decision_witness:
  "db_ok_at ex_offline (tick ex_cached)
   \<and> find_cache_entry (cache_table ex_cached) ''india'' = Some (hd (cache_table ex_cached))
   \<and> latest_article_url (hd (cache_table ex_cached))
        = Some ''https://indianexpress.com/article/india/budget-bill-1/''
   \<and> map_of CATEGORIES ''india'' = Some ''https://indianexpress.com/section/india/''
   \<and> page_at ex_offline (Suc (tick ex_cached)) ''https://indianexpress.com/section/india/'' = None
   \<and> should_update_cache ex_offline ''india'' ex_cached
        = Inr ((True, Some ''https://indianexpress.com/article/india/budget-bill-1/''),
               ex_cached\<lparr>tick := tick ex_cached + 3\<rparr>)
   \<and> process_category ex_offline 10 ''india'' ex_cached
        = refresh_category ex_offline 10 ''india''
            (Some ''https://indianexpress.com/article/india/budget-bill-1/'')
            (ex_cached\<lparr>tick := tick ex_cached + 3\<rparr>)"
proof -
  have a: "db_ok_at ex_offline (tick ex_cached)" by (simp add: ex_offline_def)
  have b: "find_cache_entry (cache_table ex_cached) ''india'' = Some (hd (cache_table ex_cached))"
    by (simp add: ex_cached_def find_cache_entry_def)
  have c: "latest_article_url (hd (cache_table ex_cached))
             = Some ''https://indianexpress.com/article/india/budget-bill-1/''"
    by (simp add: ex_cached_def)
  have d: "map_of CATEGORIES ''india'' = Some ''https://indianexpress.com/section/india/''"
    by (simp add: CATEGORIES_def)
  have f: "page_at ex_offline (Suc (tick ex_cached)) ''https://indianexpress.com/section/india/'' = None"
    by (simp add: ex_offline_def)
  note g = unreachable_listing_decision [OF a b c d f, of 10]
  show ?thesis by (intro conjI a b c d f g [THEN conjunct1] g [THEN conjunct2])
qed

text \<open>
  Claim C9 as it is written says that the decision is the one taken when no cache state
  exists, a full refresh without a fence-post. With the stored entry and every request
  failing the decision carries the stored url, where without an entry it carries none;
  and the category's result is the cached article, where without an entry it is empty.
\<close>

theorem unreachable_listing_decision_counterexample:
  "should_update_cache ex_offline ''india'' ex_cached
     = Inr ((True, Some ''https://indianexpress.com/article/india/budget-bill-1/''),
            ex_cached\<lparr>tick := 3\<rparr>)
   \<and> should_update_cache ex_offline ''india'' ex_world
     = Inr ((True, None), ex_world\<lparr>tick := 2\<rparr>)
   \<and> map_sum id fst (process_category ex_offline 10 ''india'' ex_cached)
     = Inr [row_to_dict ex_row]
   \<and> map_sum id fst (process_category ex_offline 10 ''india'' ex_world) = Inr []"
  by code_simp

section \<open>The result of \<open>get_articles_with_cache\<close>\<close>

lemma ex_run:
  "get_articles_with_cache ex_env [''india''] 1 ex_world = Inr (ex_results, ex_final)"
  by code_simp

lemma ex_offline_run:
  "get_articles_with_cache ex_offline [''india'', ''world''] 10 ex_cached
     = Inr (ex_offline_results, ex_offline_final)"
  by code_simp

lemma py_slice_to_length: "0 \<le> n \<Longrightarrow> int (length (py_slice_to n xs)) \<le> n"
  by (simp add: py_slice_to_def)

lemma top_up_loop_length:
  "int (length fin) \<le> limit \<Longrightarrow>
   int (length (fst (fst (top_up_loop e limit cat links (fin, ex) w)))) \<le> limit"
proof (induction links arbitrary: fin ex w)
  case Nil
  then show ?case by simp
next
  case (Cons l links)
  then show ?case by (auto simp: Let_def split: prod.splits option.splits)
qed

lemma top_up_length:
  "0 \<le> limit \<Longrightarrow> int (length (fst (top_up e limit cat all_articles new w))) \<le> limit"
proof (cases "int (length (py_slice_to limit all_articles)) < limit \<and> int (length new) < limit")
  case True
  assume lim: "0 \<le> limit"
  obtain links w1 where g: "get_category_articles e cat (limit * 2) w = (links, w1)"
    by (cases "get_category_articles e cat (limit * 2) w")
  obtain acc w2
    where t: "top_up_loop e limit cat links
                (py_slice_to limit all_articles, url ` set all_articles) w1 = (acc, w2)"
    by (cases "top_up_loop e limit cat links
                 (py_slice_to limit all_articles, url ` set all_articles) w1")
  have "int (length (py_slice_to limit all_articles)) \<le> limit"
    using lim by (rule py_slice_to_length)
  from top_up_loop_length [OF this]
  have "int (length (fst (fst (top_up_loop e limit cat links
               (py_slice_to limit all_articles, url ` set all_articles) w1)))) \<le> limit" .
  with t have "int (length (fst acc)) \<le> limit" by simp
  with True g t show ?thesis by (simp add: top_up_def Let_def)
next
  case False
  assume "0 \<le> limit"
  with False show ?thesis by (auto simp: top_up_def Let_def py_slice_to_length)
qed

lemma refresh_category_length:
  "0 \<le> limit \<Longrightarrow> refresh_category e limit cat latest w = Inr (xs, w') \<Longrightarrow>
   int (length xs) \<le> limit"
  using top_up_length [of limit e cat]
  by (auto simp: refresh_category_def Let_def split: sum.splits prod.splits) (metis fst_conv)

lemma process_category_length:
  "0 \<le> limit \<Longrightarrow> process_category e limit cat w = Inr (xs, w') \<Longrightarrow>
   int (length xs) \<le> limit"
  by (auto simp: process_category_def py_slice_to_length
        split: sum.splits prod.splits if_splits option.splits list.splits
        dest: refresh_category_length)

lemma categories_loop_bound:
  "0 \<le> limit \<Longrightarrow> categories_loop e limit cats results w = Inr (results', w') \<Longrightarrow>
   \<forall>c xs. map_of results c = Some xs \<longrightarrow> int (length xs) \<le> limit \<Longrightarrow>
   map_of results' cat = Some xs \<Longrightarrow> int (length xs) \<le> limit"
proof (induction cats arbitrary: results w)
  case Nil
  then show ?case by auto
next
  case (Cons c cats)
  from Cons.prems(2) obtain fin w1
    where p: "process_category e limit c w = Inr (fin, w1)"
      and r: "categories_loop e limit cats (AList.update c fin results) w1 = Inr (results', w')"
    by (auto split: sum.splits)
  from process_category_length [OF Cons.prems(1) p] Cons.prems(3)
  have "\<forall>c' xs. map_of (AList.update c fin results) c' = Some xs \<longrightarrow> int (length xs) \<le> limit"
    by (auto simp: update_conv')
  from Cons.IH [OF Cons.prems(1) r this Cons.prems(4)] show ?case .
qed

lemma categories_loop_keys:
  "categories_loop e limit cats results w = Inr (results', w') \<Longrightarrow>
   fst ` set results' = fst ` set results \<union> set cats"
proof (induction cats arbitrary: results w)
  case Nil
  then show ?case by auto
next
  case (Cons c cats)
  from Cons.prems obtain fin w1
    where r: "categories_loop e limit cats (AList.update c fin results) w1 = Inr (results', w')"
    by (auto split: sum.splits)
  from Cons.IH [OF r] show ?case by (auto simp: dom_update)
qed


lemma db_access_always: "\<forall>t. db_ok_at e t \<Longrightarrow> db_access e w = Inr (advance w)"
  by (simp add: db_access_def)

lemma get_cached_articles_total:
  "\<forall>t. db_ok_at e t \<Longrightarrow> \<exists>r. get_cached_articles e cat w = Inr r"
  by (simp add: get_cached_articles_def db_access_always utcnow_def Let_def split: option.splits)

lemma should_update_cache_total:
  "\<forall>t. db_ok_at e t \<Longrightarrow> \<exists>r. should_update_cache e cat w = Inr r"
  by (auto simp: should_update_cache_def db_access_always utcnow_def Let_def
        split: option.splits prod.splits)

lemma store_loop_total:
  "\<forall>t. db_ok_at e t \<Longrightarrow> \<exists>r. store_loop e xs acc w = Inr r"
  by (induction xs arbitrary: acc w)
     (simp_all add: db_access_always Let_def split: option.splits)

lemma update_category_cache_total:
  "\<forall>t. db_ok_at e t \<Longrightarrow> \<exists>r. update_category_cache e cat ids u w = Inr r"
  by (simp add: update_category_cache_def db_access_always utcnow_def Let_def
        split: option.splits)

lemma persist_total:
  "\<forall>t. db_ok_at e t \<Longrightarrow> \<exists>r. persist e cat fin w = Inr r"
proof -
  assume ok: "\<forall>t. db_ok_at e t"
  show ?thesis
  proof (cases "filter (\<lambda>a. content a \<noteq> []) fin = []")
    case True
    then show ?thesis by (simp add: persist_def)
  next
    case False
    from store_loop_total [OF ok, of "filter (\<lambda>a. content a \<noteq> []) fin" "[]" w]
    obtain ids w1
      where s: "store_articles_in_db e (filter (\<lambda>a. content a \<noteq> []) fin) w = Inr (ids, w1)"
      by (auto simp: store_articles_in_db_def)
    show ?thesis
    proof (cases fin)
      case Nil
      with False show ?thesis by simp
    next
      case (Cons first rest)
      from update_category_cache_total [OF ok, of cat ids "url first" w1] obtain w2
        where "update_category_cache e cat ids (url first) w1 = Inr w2" by blast
      with False s Cons show ?thesis by (simp add: persist_def)
    qed
  qed
qed

lemma gather_total:
  "\<forall>t. db_ok_at e t \<Longrightarrow> \<exists>r. gather e limit cat latest w = Inr r"
proof -
  assume ok: "\<forall>t. db_ok_at e t"
  show ?thesis
  proof (cases "latest \<noteq> None \<and> latest \<noteq> Some []")
    case True
    obtain links w1 where i: "get_incremental_articles e cat (opt_str latest) limit w = (links, w1)"
      by (cases "get_incremental_articles e cat (opt_str latest) limit w")
    from get_cached_articles_total [OF ok, of cat w1] obtain cached w2
      where "get_cached_articles e cat w1 = Inr (cached, w2)" by auto
    with True i show ?thesis by (simp add: gather_def)
  next
    case False
    then show ?thesis by (auto simp: gather_def split: prod.splits)
  qed
qed

lemma refresh_category_total:
  "\<forall>t. db_ok_at e t \<Longrightarrow> \<exists>r. refresh_category e limit cat latest w = Inr r"
proof -
  assume ok: "\<forall>t. db_ok_at e t"
  from gather_total [OF ok, of limit cat latest w] obtain links cached w1
    where g: "gather e limit cat latest w = Inr ((links, cached), w1)" by auto
  obtain fetched w2 where f: "fetch_contents e cat links [] w1 = (fetched, w2)"
    by (cases "fetch_contents e cat links [] w1")
  obtain new w3 where s: "summarize_all e fetched w2 = (new, w3)"
    by (cases "summarize_all e fetched w2")
  obtain fin w4 where t: "top_up e limit cat (merge_articles new cached) new w3 = (fin, w4)"
    by (cases "top_up e limit cat (merge_articles new cached) new w3")
  from persist_total [OF ok, of cat fin w4] obtain w5
    where "persist e cat fin w4 = Inr w5" by blast
  with g f s t show ?thesis by (simp add: refresh_category_def)
qed

lemma process_category_total:
  "\<forall>t. db_ok_at e t \<Longrightarrow> \<exists>r. process_category e limit cat w = Inr r"
proof -
  assume ok: "\<forall>t. db_ok_at e t"
  from should_update_cache_total [OF ok, of cat w] obtain upd latest w1
    where d: "should_update_cache e cat w = Inr ((upd, latest), w1)" by auto
  from get_cached_articles_total [OF ok, of cat w1] obtain cached w2
    where c: "get_cached_articles e cat w1 = Inr (cached, w2)" by auto
  from refresh_category_total [OF ok] d c show ?thesis
    by (auto simp: process_category_def split: option.splits list.splits)
qed

lemma categories_loop_total:
  "\<forall>t. db_ok_at e t \<Longrightarrow> \<exists>r. categories_loop e limit cats results w = Inr r"
proof (induction cats arbitrary: results w)
  case Nil
  show ?case by simp
next
  case (Cons c cats)
  from process_category_total [OF Cons.prems, of limit c w] obtain fin w1
    where "process_category e limit c w = Inr (fin, w1)" by auto
  with Cons.IH [OF Cons.prems, of "AList.update c fin results" w1] show ?case by simp
qed

lemma categories_loop_append:
  "categories_loop e limit (xs @ ys) results w =
     (case categories_loop e limit xs results w of
        Inl err \<Rightarrow> Inl err
      | Inr (r, w1) \<Rightarrow> categories_loop e limit ys r w1)"
  by (induction xs arbitrary: results w) (auto split: sum.splits)

text \<open>
  Claim C2. For a target count \<open>limit \<ge> 0\<close>, every list in the mapping that
  \<open>get_articles_with_cache\<close> returns has at most \<open>limit\<close> elements, whether it comes
  from the cache, from the merge, or from the top-up pass (whose loop is left as soon as
  the list has \<open>limit\<close> elements).
\<close>

theorem bounded_output:
  assumes "0 \<le> limit"
    and "get_articles_with_cache e cats limit w = Inr (results, w')"
    and "map_of results cat = Some xs"
  shows "int (length xs) \<le> limit"
  using categories_loop_bound [OF assms(1), of e cats "[]" w results w' cat xs] assms(2,3)
  by (simp add: get_articles_with_cache_def)

theorem bounded_output_witness:
  "(0::int) \<le> 1
   \<and> get_articles_with_cache ex_env [''india''] 1 ex_world = Inr (ex_results, ex_final)
   \<and> map_of ex_results ''india'' = Some (snd (hd ex_results))
   \<and> int (length (snd (hd ex_results))) \<le> 1"
proof -
  have a: "(0::int) \<le> 1" by simp
  have b: "map_of ex_results ''india'' = Some (snd (hd ex_results))"
    by (simp add: ex_results_def)
  note c = bounded_output [OF a ex_run b]
  show ?thesis by (intro conjI a ex_run b c)
qed

text \<open>
  Claim C10. When \<open>get_articles_with_cache\<close> returns, the keys of the mapping are
  exactly the requested categories, so a category that yielded no article has its
  (empty) entry.
\<close>

theorem every_category_has_entry:
  assumes "get_articles_with_cache e cats limit w = Inr (results, w')"
  shows "fst ` set results = set cats"
  using categories_loop_keys [of e limit cats "[]" w results w'] assms
  by (simp add: get_articles_with_cache_def)

theorem every_category_has_entry_witness:
  "get_articles_with_cache ex_offline [''india'', ''world''] 10 ex_cached
     = Inr (ex_offline_results, ex_offline_final)
   \<and> fst ` set ex_offline_results = set [''india'', ''world'']
   \<and> map_of ex_offline_results ''world'' = Some []"
proof -
  note a = every_category_has_entry [OF ex_offline_run]
  have b: "map_of ex_offline_results ''world'' = Some []"
    by (simp add: ex_offline_results_def)
  show ?thesis by (intro conjI ex_offline_run a b)
qed

lemma get_category_articles_unreachable:
  "\<forall>t u. page_at e t u = None \<Longrightarrow> fst (get_category_articles e cat limit w) = []"
  by (simp add: get_category_articles_def split: option.splits)

lemma process_category_unreachable:
  assumes ok: "\<forall>t. db_ok_at e t"
    and off: "\<forall>t u. page_at e t u = None"
    and none: "find_cache_entry (cache_table w) cat = None"
  shows "\<exists>w'. process_category e limit cat w = Inr ([], w')"
proof -
  obtain u w2 where l: "get_latest_article_url e cat (advance w) = (u, w2)"
    by (cases "get_latest_article_url e cat (advance w)")
  have dec: "should_update_cache e cat w = Inr ((True, None), w2)"
    using l none by (simp add: should_update_cache_def db_access_always [OF ok])
  obtain links w3 where g: "get_category_articles e cat limit w2 = (links, w3)"
    by (cases "get_category_articles e cat limit w2")
  from get_category_articles_unreachable [OF off, of cat limit w2] g
  have links: "links = []" by simp
  have ga: "gather e limit cat None w2 = Inr (([], []), w3)"
    using g links by (simp add: gather_def)
  obtain more w4 where m: "get_category_articles e cat (limit * 2) w3 = (more, w4)"
    by (cases "get_category_articles e cat (limit * 2) w3")
  from get_category_articles_unreachable [OF off, of cat "limit * 2" w3] m
  have more: "more = []" by simp
  have "\<exists>w5. top_up e limit cat [] [] w3 = ([], w5)"
    using m more by (auto simp: top_up_def py_slice_to_def Let_def)
  then obtain w5 where t: "top_up e limit cat [] [] w3 = ([], w5)" by blast
  have "refresh_category e limit cat None w2 = Inr ([], w5)"
    using ga t by (simp add: refresh_category_def merge_articles_def persist_def)
  with dec show ?thesis by (simp add: process_category_def)
qed

text \<open>
  Claim C5, as far as the code goes. A failing request never raises: the fetchers turn
  it into an empty listing or a dropped stub. So when the database does not fail, the
  call returns a mapping with an entry for every requested category, whatever the
  requests do; and a category without a cache entry whose requests all fail gets the
  empty list. A failing database call is not caught: when the categories \<open>pre\<close> have
  been processed and processing the next category raises, the call raises, and no entry
  is returned for any category.
\<close>

theorem fetch_failures_absorbed_store_errors_not:
  "((\<forall>t. db_ok_at e t) \<longrightarrow>
      (\<exists>results w'. get_articles_with_cache e cats limit w = Inr (results, w')
                     \<and> fst ` set results = set cats))
   \<and> ((\<forall>t. db_ok_at e t) \<and> (\<forall>t u. page_at e t u = None)
        \<and> find_cache_entry (cache_table w) cat = None \<longrightarrow>
      (\<exists>w'. process_category e limit cat w = Inr ([], w')))
   \<and> (get_articles_with_cache e pre limit w = Inr (r, w1)
        \<and> process_category e limit cat w1 = Inl err \<longrightarrow>
      get_articles_with_cache e (pre @ cat # rest) limit w = Inl err)"
proof (intro conjI impI)
  assume "(\<forall>t. db_ok_at e t) \<and> (\<forall>t u. page_at e t u = None)
            \<and> find_cache_entry (cache_table w) cat = None"
  then show "\<exists>w'. process_category e limit cat w = Inr ([], w')"
    using process_category_unreachable [of e w cat limit] by blast
next
  assume ok: "\<forall>t. db_ok_at e t"
  from categories_loop_total [OF ok, of limit cats "[]" w] obtain results w'
    where run: "get_articles_with_cache e cats limit w = Inr (results, w')"
    by (auto simp: get_articles_with_cache_def)
  from categories_loop_keys [of e limit cats "[]" w results w'] run
  have "fst ` set results = set cats" by (simp add: get_articles_with_cache_def)
  with run show "\<exists>results w'. get_articles_with_cache e cats limit w = Inr (results, w')
                     \<and> fst ` set results = set cats" by blast
next
  assume "get_articles_with_cache e pre limit w = Inr (r, w1)
            \<and> process_category e limit cat w1 = Inl err"
  then show "get_articles_with_cache e (pre @ cat # rest) limit w = Inl err"
    by (simp add: get_articles_with_cache_def categories_loop_append)
qed


theorem fetch_failures_absorbed_store_errors_not_witness:
  "(\<forall>t. db_ok_at ex_offline t)
   \<and> (\<exists>results w'. get_articles_with_cache ex_offline [''india'', ''world''] 10 ex_cached
                          = Inr (results, w')
                      \<and> fst ` set results = set [''india'', ''world''])
   \<and> (\<forall>t u. page_at ex_offline t u = None)
   \<and> find_cache_entry (cache_table ex_cached) ''world'' = None
   \<and> (\<exists>w'. process_category ex_offline 10 ''world'' ex_cached = Inr ([], w'))
   \<and> get_articles_with_cache ex_db_fails [''india''] 10 ex_world
        = Inr ([(''india'', [])], ex_world\<lparr>tick := 4\<rparr>)
   \<and> process_category ex_db_fails 10 ''world'' (ex_world\<lparr>tick := 4\<rparr>) = Inl StoreError
   \<and> get_articles_with_cache ex_db_fails ([''india''] @ ''world'' # []) 10 ex_world
        = Inl StoreError"
proof -
  note T = fetch_failures_absorbed_store_errors_not
  have a: "\<forall>t. db_ok_at ex_offline t" by (simp add: ex_offline_def)
  note b = T [where e = ex_offline and cats = "[''india'', ''world'']" and limit = 10
               and w = ex_cached, THEN conjunct1, THEN mp, OF a]
  have c: "get_articles_with_cache ex_db_fails [''india''] 10 ex_world
             = Inr ([(''india'', [])], ex_world\<lparr>tick := 4\<rparr>)"
    by code_simp
  have d: "process_category ex_db_fails 10 ''world'' (ex_world\<lparr>tick := 4\<rparr>) = Inl StoreError"
    by code_simp
  note f = T [where e = ex_db_fails and limit = 10 and w = ex_world and pre = "[''india'']"
               and r = "[(''india'', [])]" and ?w1.0 = "ex_world\<lparr>tick := 4\<rparr>"
               and cat = "''world''" and err = StoreError and rest = "[]",
             THEN conjunct2, THEN conjunct2, THEN mp, OF conjI [OF c d]]
  have g: "\<forall>t u. page_at ex_offline t u = None" by (simp add: ex_offline_def)
  have h: "find_cache_entry (cache_table ex_cached) ''world'' = None"
    by (simp add: ex_cached_def find_cache_entry_def)
  note i = T [where e = ex_offline and limit = 10 and w = ex_cached and cat = "''world''",
             THEN conjunct2, THEN conjunct1, THEN mp, OF conjI [OF a conjI [OF g h]]]
  show ?thesis by (intro conjI a b g h i c d f)
qed

text \<open>
  Claim C5 as it is written says that a failure in one category is caught and gives that
  category an empty result while the others are processed. With a database that fails
  while the second category is processed the call raises, and the first category's
  result is lost with it. With every request failing and a cached article present the
  category's result is the cached article, not an empty list.
\<close>

theorem fetch_failures_absorbed_store_errors_not_counterexample:
  "get_articles_with_cache ex_db_fails [''india'', ''world''] 10 ex_world = Inl StoreError
   \<and> map_sum id fst (get_articles_with_cache ex_offline [''india''] 10 ex_cached)
       = Inr [(''india'', [row_to_dict ex_row])]"
  by code_simp

section \<open>What the steps leave unchanged\<close>

lemma get_category_articles_frame:
  "get_category_articles e cat limit w = (xs, w') \<Longrightarrow>
   article_table w' = article_table w \<and> cache_table w' = cache_table w
   \<and> content_requests w' = content_requests w
   \<and> (tick w' = tick w \<or> tick w' = Suc (tick w))"
  by (auto simp: get_category_articles_def split: option.splits if_splits)

lemma get_latest_article_url_frame:
  "get_latest_article_url e cat w = (u, w') \<Longrightarrow>
   article_table w' = article_table w \<and> cache_table w' = cache_table w
   \<and> content_requests w' = content_requests w
   \<and> (tick w' = tick w \<or> tick w' = Suc (tick w))"
  by (auto simp: get_latest_article_url_def split: prod.splits dest: get_category_articles_frame)

lemma get_incremental_articles_frame:
  "get_incremental_articles e cat u limit w = (xs, w') \<Longrightarrow>
   article_table w' = article_table w \<and> cache_table w' = cache_table w"
  by (auto simp: get_incremental_articles_def split: prod.splits dest: get_category_articles_frame)

lemma db_access_frame:
  "db_access e w = Inr w' \<Longrightarrow> w' = advance w"
  by (auto simp: db_access_def split: if_splits)

lemma get_cached_articles_frame:
  "get_cached_articles e cat w = Inr (r, w') \<Longrightarrow>
   article_table w' = article_table w \<and> cache_table w' = cache_table w
   \<and> content_requests w' = content_requests w"
  by (auto simp: get_cached_articles_def utcnow_def Let_def
        split: sum.splits option.splits if_splits dest!: db_access_frame)

lemma get_article_content_frame:
  "get_article_content e u w = (r, w') \<Longrightarrow>
   article_table w' = article_table w \<and> cache_table w' = cache_table w"
  by (auto simp: get_article_content_def Let_def split: option.splits if_splits)

lemma fetch_contents_frame:
  "fetch_contents e cat links acc w = (xs, w') \<Longrightarrow>
   article_table w' = article_table w \<and> cache_table w' = cache_table w"
proof (induction links arbitrary: acc w)
  case Nil
  then show ?case by simp
next
  case (Cons l links)
  obtain r w1 where g: "get_article_content e (url l) w = (r, w1)"
    by (cases "get_article_content e (url l) w")
  from get_article_content_frame [OF g]
  have f: "article_table w1 = article_table w" "cache_table w1 = cache_table w" by simp_all
  show ?case
  proof (cases r)
    case None
    with Cons.prems g have "fetch_contents e cat links acc w1 = (xs, w')" by simp
    from Cons.IH [OF this] f show ?thesis by simp
  next
    case (Some c)
    with Cons.prems g
    have "fetch_contents e cat links (acc @ [with_category c cat]) w1 = (xs, w')" by simp
    from Cons.IH [OF this] f show ?thesis by simp
  qed
qed

lemma summarize_article_frame:
  "summarize_article e a w = (a', w') \<Longrightarrow>
   article_table w' = article_table w \<and> cache_table w' = cache_table w"
  by (auto simp: summarize_article_def Let_def split: if_splits prod.splits)

lemma summarize_all_frame:
  "summarize_all e xs w = (ys, w') \<Longrightarrow>
   article_table w' = article_table w \<and> cache_table w' = cache_table w"
proof (induction xs arbitrary: ys w w')
  case Nil
  then show ?case by simp
next
  case (Cons a xs)
  obtain a' w1 where s: "summarize_article e a w = (a', w1)"
    by (cases "summarize_article e a w")
  obtain rest' w2 where r: "summarize_all e xs w1 = (rest', w2)"
    by (cases "summarize_all e xs w1")
  from Cons.prems s r have "w' = w2" by simp
  with Cons.IH [OF r] summarize_article_frame [OF s] show ?case by simp
qed

lemma top_up_loop_frame:
  "top_up_loop e limit cat links acc w = (r, w') \<Longrightarrow>
   article_table w' = article_table w \<and> cache_table w' = cache_table w"
proof (induction links arbitrary: acc w)
  case Nil
  then show ?case by simp
next
  case (Cons l links)
  obtain fin ex where acc: "acc = (fin, ex)" by (cases acc)
  show ?case
  proof (cases "limit \<le> int (length fin)")
    case True
    with Cons.prems acc show ?thesis by simp
  next
    case False
    note open_loop = False
    show ?thesis
    proof (cases "url l \<notin> ex")
      case False
      with open_loop Cons.prems acc
      have "top_up_loop e limit cat links (fin, ex) w = (r, w')" by simp
      from Cons.IH [OF this] show ?thesis .
    next
      case True
      obtain c w1 where g: "get_article_content e (url l) w = (c, w1)"
        by (cases "get_article_content e (url l) w")
      from get_article_content_frame [OF g]
      have f: "article_table w1 = article_table w" "cache_table w1 = cache_table w"
        by simp_all
      show ?thesis
      proof (cases c)
        case None
        with True open_loop Cons.prems acc g
        have "top_up_loop e limit cat links (fin, ex) w1 = (r, w')" by simp
        from Cons.IH [OF this] f show ?thesis by simp
      next
        case (Some cd)
        obtain a w2 where s: "summarize_article e (with_category cd cat) w1 = (a, w2)"
          by (cases "summarize_article e (with_category cd cat) w1")
        with True open_loop Cons.prems acc g Some
        have "top_up_loop e limit cat links (fin @ [a], insert (url l) ex) w2 = (r, w')"
          by simp
        from Cons.IH [OF this] summarize_article_frame [OF s] f show ?thesis by simp
      qed
    qed
  qed
qed

lemma top_up_frame:
  "top_up e limit cat all_articles new w = (fin, w') \<Longrightarrow>
   article_table w' = article_table w \<and> cache_table w' = cache_table w"
proof (cases "int (length (py_slice_to limit all_articles)) < limit \<and> int (length new) < limit")
  case False
  assume "top_up e limit cat all_articles new w = (fin, w')"
  with False show ?thesis by (auto simp: top_up_def Let_def)
next
  case True
  assume run: "top_up e limit cat all_articles new w = (fin, w')"
  obtain links w1 where g: "get_category_articles e cat (limit * 2) w = (links, w1)"
    by (cases "get_category_articles e cat (limit * 2) w")
  obtain acc w2
    where t: "top_up_loop e limit cat links
                (py_slice_to limit all_articles, url ` set all_articles) w1 = (acc, w2)"
    by (cases "top_up_loop e limit cat links
                 (py_slice_to limit all_articles, url ` set all_articles) w1")
  from True g t run have "w' = w2" by (simp add: top_up_def Let_def)
  with top_up_loop_frame [OF t] get_category_articles_frame [OF g] show ?thesis by simp
qed

lemma gather_frame:
  "gather e limit cat latest w = Inr (r, w') \<Longrightarrow>
   article_table w' = article_table w \<and> cache_table w' = cache_table w"
  by (auto simp: gather_def split: if_splits prod.splits sum.splits
        dest!: get_incremental_articles_frame get_cached_articles_frame
               get_category_articles_frame)

section \<open>Persisting a refresh\<close>

lemma find_append_cases:
  "find P (xs @ ys) = (case find P xs of None \<Rightarrow> find P ys | Some x \<Rightarrow> Some x)"
  by (induction xs) auto


lemma update_first_length: "length (update_first P f xs) = length xs"
  by (induction xs) auto

lemma update_first_find:
  "find P xs = Some x \<Longrightarrow> P (f x) \<Longrightarrow> find P (update_first P f xs) = Some (f x)"
  by (induction xs) (auto split: if_splits)

lemma update_first_find_other:
  "\<forall>x. P x \<longrightarrow> \<not> Q x \<and> \<not> Q (f x) \<Longrightarrow> find Q (update_first P f xs) = find Q xs"
  by (induction xs) auto

lemma find_cache_entry_name:
  "find_cache_entry tbl cat = Some c \<Longrightarrow> category_name c = cat"
  by (auto simp: find_cache_entry_def find_Some_iff)

lemma update_category_cache_result:
  assumes "update_category_cache e cat ids u w = Inr w'"
  shows "article_table w' = article_table w \<and> tick w' = tick w + 3
    \<and> find_cache_entry (cache_table w') cat =
        Some \<lparr>category_name = cat, latest_article_url = Some u,
              cached_articles_json = ids, cached_at = utcnow_at e (Suc (tick w))\<rparr>
    \<and> (\<forall>c. c \<noteq> cat \<longrightarrow> find_cache_entry (cache_table w') c = find_cache_entry (cache_table w) c)
    \<and> length (cache_table w') =
        (if find_cache_entry (cache_table w) cat = None then Suc (length (cache_table w))
         else length (cache_table w))"
proof (cases "find_cache_entry (cache_table w) cat")
  case None
  with assms
  have w': "w' = advance ((advance (advance w))\<lparr>cache_table := cache_table w @
                  [\<lparr>category_name = cat, latest_article_url = Some u,
                    cached_articles_json = ids, cached_at = utcnow_at e (Suc (tick w))\<rparr>]\<rparr>)"
    by (auto simp: update_category_cache_def utcnow_def Let_def
          split: sum.splits dest!: db_access_frame)
  from None show ?thesis
    by (auto simp: w' find_cache_entry_def find_append_cases split: option.splits)
next
  case (Some entry)
  define upd where "upd = (\<lambda>c :: cache_row. c\<lparr>latest_article_url := Some u, cached_articles_json := ids,
                                   cached_at := utcnow_at e (Suc (tick w))\<rparr>)"
  from Some assms
  have w': "w' = advance ((advance (advance w))\<lparr>cache_table :=
                  update_first (\<lambda>c. category_name c = cat) upd (cache_table w)\<rparr>)"
    by (auto simp: update_category_cache_def utcnow_def Let_def upd_def
          split: sum.splits dest!: db_access_frame)
  from find_cache_entry_name [OF Some] have n: "category_name entry = cat" .
  have "find (\<lambda>c. category_name c = cat)
          (update_first (\<lambda>c. category_name c = cat) upd (cache_table w)) = Some (upd entry)"
  proof (rule update_first_find)
    show "find (\<lambda>c. category_name c = cat) (cache_table w) = Some entry"
      using Some by (simp add: find_cache_entry_def)
    show "category_name (upd entry) = cat" using n by (simp add: upd_def)
  qed
  moreover have "upd entry = \<lparr>category_name = cat, latest_article_url = Some u,
              cached_articles_json = ids, cached_at = utcnow_at e (Suc (tick w))\<rparr>"
    using n by (simp add: upd_def)
  moreover have "\<forall>c. c \<noteq> cat \<longrightarrow>
      find (\<lambda>x. category_name x = c)
        (update_first (\<lambda>c. category_name c = cat) upd (cache_table w))
      = find (\<lambda>x. category_name x = c) (cache_table w)"
    by (auto intro!: update_first_find_other simp: upd_def)
  ultimately show ?thesis using Some
    by (simp add: w' find_cache_entry_def update_first_length)
qed


text \<open>
  Every article the code handles has content, and every row it writes: a fetched article
  because \<open>get_article_content\<close> returns \<open>None\<close> for an empty text, a cached one
  because its row has content. So \<open>articles_have_content\<close> holds for the empty store
  and after every call of \<open>get_articles_with_cache\<close> on a store for which it holds.
\<close>

lemma get_article_content_has_content:
  "get_article_content e u w = (Some c, w') \<Longrightarrow> cd_content c \<noteq> []"
  by (auto simp: get_article_content_def Let_def split: option.splits if_splits)

lemma fetch_contents_content:
  "\<forall>a \<in> set acc. content a \<noteq> [] \<Longrightarrow> fetch_contents e cat links acc w = (xs, w') \<Longrightarrow>
   \<forall>a \<in> set xs. content a \<noteq> []"
proof (induction links arbitrary: acc w)
  case Nil
  then show ?case by simp
next
  case (Cons l links)
  obtain r w1 where g: "get_article_content e (url l) w = (r, w1)"
    by (cases "get_article_content e (url l) w")
  show ?case
  proof (cases r)
    case None
    with Cons.prems g have "fetch_contents e cat links acc w1 = (xs, w')" by simp
    from Cons.IH [OF Cons.prems(1) this] show ?thesis .
  next
    case (Some c)
    with Cons.prems g
    have run: "fetch_contents e cat links (acc @ [with_category c cat]) w1 = (xs, w')" by simp
    from get_article_content_has_content [OF g [unfolded Some]] Cons.prems(1)
    have "\<forall>a \<in> set (acc @ [with_category c cat]). content a \<noteq> []"
      by (simp add: with_category_def)
    from Cons.IH [OF this run] show ?thesis .
  qed
qed

lemma summarize_article_content:
  "summarize_article e a w = (a', w') \<Longrightarrow> content a' = content a"
  by (auto simp: summarize_article_def Let_def split: if_splits prod.splits)

lemma summarize_all_content:
  "summarize_all e xs w = (ys, w') \<Longrightarrow> \<forall>a \<in> set xs. content a \<noteq> [] \<Longrightarrow>
   \<forall>a \<in> set ys. content a \<noteq> []"
proof (induction xs arbitrary: ys w w')
  case Nil
  then show ?case by simp
next
  case (Cons a xs)
  obtain a' w1 where s: "summarize_article e a w = (a', w1)"
    by (cases "summarize_article e a w")
  obtain rest' w2 where r: "summarize_all e xs w1 = (rest', w2)"
    by (cases "summarize_all e xs w1")
  from Cons.prems s r have ys: "ys = a' # rest'" by simp
  from Cons.IH [OF r] Cons.prems(2) have "\<forall>a \<in> set rest'. content a \<noteq> []" by simp
  with summarize_article_content [OF s] Cons.prems(2) ys show ?case by simp
qed

lemma get_cached_articles_content:
  "articles_have_content w \<Longrightarrow> get_cached_articles e cat w = Inr (Some xs, w') \<Longrightarrow>
   \<forall>a \<in> set xs. content a \<noteq> []"
  by (auto simp: get_cached_articles_def utcnow_def Let_def articles_have_content_def
        row_to_dict_def
        split: sum.splits option.splits if_splits dest!: db_access_frame)

lemma gather_content:
  assumes "articles_have_content w"
    and "gather e limit cat latest w = Inr ((links, cached), w1)"
  shows "\<forall>a \<in> set cached. content a \<noteq> []"
proof (cases "latest \<noteq> None \<and> latest \<noteq> Some []")
  case False
  with assms(2) show ?thesis by (auto simp: gather_def split: prod.splits)
next
  case True
  obtain ls w0 where i: "get_incremental_articles e cat (opt_str latest) limit w = (ls, w0)"
    by (cases "get_incremental_articles e cat (opt_str latest) limit w")
  from get_incremental_articles_frame [OF i] assms(1)
  have inv: "articles_have_content w0" by (simp add: articles_have_content_def)
  from True i assms(2) obtain c
    where g: "get_cached_articles e cat w0 = Inr (c, w1)"
      and cached: "cached = (case c of None \<Rightarrow> [] | Some xs \<Rightarrow> xs)"
    by (auto simp: gather_def split: sum.splits)
  show ?thesis
  proof (cases c)
    case None
    with cached show ?thesis by simp
  next
    case (Some xs)
    with get_cached_articles_content [OF inv g [unfolded Some]] cached show ?thesis by simp
  qed
qed

lemma top_up_loop_content:
  "\<forall>a \<in> set fin. content a \<noteq> [] \<Longrightarrow>
   top_up_loop e limit cat links (fin, ex) w = (r, w') \<Longrightarrow>
   \<forall>a \<in> set (fst r). content a \<noteq> []"
proof (induction links arbitrary: fin ex w)
  case Nil
  then show ?case by auto
next
  case (Cons l links)
  show ?case
  proof (cases "limit \<le> int (length fin)")
    case True
    with Cons.prems show ?thesis by auto
  next
    case False
    note open_loop = False
    show ?thesis
    proof (cases "url l \<notin> ex")
      case False
      with open_loop Cons.prems
      have "top_up_loop e limit cat links (fin, ex) w = (r, w')" by simp
      from Cons.IH [OF Cons.prems(1) this] show ?thesis .
    next
      case True
      obtain c w1 where g: "get_article_content e (url l) w = (c, w1)"
        by (cases "get_article_content e (url l) w")
      show ?thesis
      proof (cases c)
        case None
        with True open_loop Cons.prems g
        have "top_up_loop e limit cat links (fin, ex) w1 = (r, w')" by simp
        from Cons.IH [OF Cons.prems(1) this] show ?thesis .
      next
        case (Some cd)
        obtain a w2 where s: "summarize_article e (with_category cd cat) w1 = (a, w2)"
          by (cases "summarize_article e (with_category cd cat) w1")
        with True open_loop Cons.prems g Some
        have run: "top_up_loop e limit cat links (fin @ [a], insert (url l) ex) w2 = (r, w')"
          by simp
        from summarize_article_content [OF s]
          get_article_content_has_content [OF g [unfolded Some]]
        have "content a \<noteq> []" by (simp add: with_category_def)
        with Cons.prems(1) have "\<forall>x \<in> set (fin @ [a]). content x \<noteq> []" by simp
        from Cons.IH [OF this run] show ?thesis .
      qed
    qed
  qed
qed

lemma py_slice_to_subset: "set (py_slice_to n xs) \<subseteq> set xs"
  by (auto simp: py_slice_to_def dest: in_set_takeD)

lemma top_up_content:
  assumes "\<forall>a \<in> set all_articles. content a \<noteq> []"
    and "top_up e limit cat all_articles new w = (fin, w')"
  shows "\<forall>a \<in> set fin. content a \<noteq> []"
proof -
  from assms(1) py_slice_to_subset [of limit all_articles]
  have sl: "\<forall>a \<in> set (py_slice_to limit all_articles). content a \<noteq> []" by blast
  show ?thesis
  proof (cases "int (length (py_slice_to limit all_articles)) < limit \<and> int (length new) < limit")
    case False
    with assms(2) sl show ?thesis by (auto simp: top_up_def Let_def)
  next
    case True
    obtain links w1 where g: "get_category_articles e cat (limit * 2) w = (links, w1)"
      by (cases "get_category_articles e cat (limit * 2) w")
    obtain acc w2
      where t: "top_up_loop e limit cat links
                  (py_slice_to limit all_articles, url ` set all_articles) w1 = (acc, w2)"
      by (cases "top_up_loop e limit cat links
                   (py_slice_to limit all_articles, url ` set all_articles) w1")
    from True g t assms(2) have "fin = fst acc" by (simp add: top_up_def Let_def)
    with top_up_loop_content [OF sl t] show ?thesis by simp
  qed
qed

lemma store_loop_content:
  "articles_have_content w \<Longrightarrow> \<forall>a \<in> set xs. content a \<noteq> [] \<Longrightarrow>
   store_loop e xs acc w = Inr (ids, w') \<Longrightarrow> articles_have_content w'"
proof (induction xs arbitrary: acc w)
  case Nil
  then show ?case by simp
next
  case (Cons a xs)
  from Cons.prems(3) have ok: "db_access e w = Inr (advance w)"
    by (auto split: sum.splits dest: db_access_frame)
  from Cons.prems(2) have rest: "\<forall>a \<in> set xs. content a \<noteq> []" by simp
  show ?case
  proof (cases "find_article_by_url (article_table w) (url a)")
    case (Some existing)
    with Cons.prems(3) ok
    have run: "store_loop e xs (acc @ [row_id existing]) (advance w) = Inr (ids, w')"
      by simp
    from Cons.prems(1) have "articles_have_content (advance w)"
      by (simp add: articles_have_content_def)
    from Cons.IH [OF this rest run] show ?thesis .
  next
    case None
    define row where "row = new_article_row e (advance w) a"
    define w3 where "w3 = (advance (advance w))\<lparr>article_table := article_table w @ [row]\<rparr>"
    from Cons.prems(3) ok None have ok2: "db_access e (advance w) = Inr (advance (advance w))"
      by (auto split: sum.splits dest: db_access_frame)
    from Cons.prems(3) ok ok2 None have ok3: "db_access e w3 = Inr (advance w3)"
      by (auto simp: Let_def w3_def row_def split: sum.splits dest: db_access_frame)
    from Cons.prems(3) ok ok2 ok3 None
    have run: "store_loop e xs (acc @ [row_id row]) (advance w3) = Inr (ids, w')"
      by (simp add: Let_def w3_def row_def)
    from Cons.prems(2) have "row_content row \<noteq> []"
      by (simp add: row_def new_article_row_def)
    with Cons.prems(1) have "articles_have_content (advance w3)"
      by (simp add: articles_have_content_def w3_def)
    from Cons.IH [OF this rest run] show ?thesis .
  qed
qed

lemma persist_content:
  assumes "articles_have_content w" and "persist e cat fin w = Inr w'"
  shows "articles_have_content w'"
proof (cases "filter (\<lambda>a. content a \<noteq> []) fin = []")
  case True
  with assms show ?thesis by (simp add: persist_def)
next
  case False
  with assms(2) obtain ids w1
    where s: "store_loop e (filter (\<lambda>a. content a \<noteq> []) fin) [] w = Inr (ids, w1)"
    by (auto simp: persist_def store_articles_in_db_def Let_def split: sum.splits)
  have "\<forall>a \<in> set (filter (\<lambda>a. content a \<noteq> []) fin). content a \<noteq> []" by simp
  from store_loop_content [OF assms(1) this s] have inv1: "articles_have_content w1" .
  show ?thesis
  proof (cases fin)
    case Nil
    with False show ?thesis by simp
  next
    case (Cons first rest)
    with False s assms(2)
    have "update_category_cache e cat ids (url first) w1 = Inr w'"
      by (simp add: persist_def store_articles_in_db_def)
    from update_category_cache_result [OF this] inv1 show ?thesis
      by (simp add: articles_have_content_def)
  qed
qed

lemma refresh_category_content:
  assumes "articles_have_content w"
    and "refresh_category e limit cat latest w = Inr (final_articles, w')"
  shows "(\<forall>a \<in> set final_articles. content a \<noteq> []) \<and> articles_have_content w'"
proof -
  from assms(2) obtain links cached w1
    where g: "gather e limit cat latest w = Inr ((links, cached), w1)"
    by (auto simp: refresh_category_def split: sum.splits)
  obtain fetched w2 where f: "fetch_contents e cat links [] w1 = (fetched, w2)"
    by (cases "fetch_contents e cat links [] w1")
  obtain new w3 where s: "summarize_all e fetched w2 = (new, w3)"
    by (cases "summarize_all e fetched w2")
  obtain fin w4 where t: "top_up e limit cat (merge_articles new cached) new w3 = (fin, w4)"
    by (cases "top_up e limit cat (merge_articles new cached) new w3")
  from assms(2) g f s t have fin: "fin = final_articles"
    and p: "persist e cat final_articles w4 = Inr w'"
    by (auto simp: refresh_category_def split: sum.splits)
  from fetch_contents_content [OF _ f] have "\<forall>a \<in> set fetched. content a \<noteq> []" by simp
  from summarize_all_content [OF s this] have n: "\<forall>a \<in> set new. content a \<noteq> []" .
  from gather_content [OF assms(1) g] n
  have "\<forall>a \<in> set (merge_articles new cached). content a \<noteq> []"
    by (auto simp: merge_articles_def)
  from top_up_content [OF this t] fin
  have c: "\<forall>a \<in> set final_articles. content a \<noteq> []" by simp
  from gather_frame [OF g] fetch_contents_frame [OF f] summarize_all_frame [OF s]
    top_up_frame [OF t] assms(1)
  have "articles_have_content w4" by (simp add: articles_have_content_def)
  from persist_content [OF this p] c show ?thesis by simp
qed

lemma should_update_cache_frame:
  "should_update_cache e cat w = Inr (r, w') \<Longrightarrow> article_table w' = article_table w"
  by (auto simp: should_update_cache_def utcnow_def Let_def
        split: sum.splits option.splits if_splits prod.splits
        dest!: db_access_frame get_latest_article_url_frame)

lemma process_category_content:
  assumes "articles_have_content w"
    and "process_category e limit cat w = Inr (xs, w')"
  shows "articles_have_content w'"
proof -
  from assms(2) obtain upd latest w1
    where d: "should_update_cache e cat w = Inr ((upd, latest), w1)"
    by (auto simp: process_category_def split: sum.splits)
  from should_update_cache_frame [OF d] assms(1)
  have i1: "articles_have_content w1" by (simp add: articles_have_content_def)
  show ?thesis
  proof (cases upd)
    case True
    with d assms(2) have "refresh_category e limit cat latest w1 = Inr (xs, w')"
      by (simp add: process_category_def)
    from refresh_category_content [OF i1 this] show ?thesis by simp
  next
    case False
    with d assms(2) obtain c w2
      where g: "get_cached_articles e cat w1 = Inr (c, w2)"
      by (auto simp: process_category_def split: sum.splits)
    from get_cached_articles_frame [OF g] i1
    have i2: "articles_have_content w2" by (simp add: articles_have_content_def)
    from False d g assms(2)
    have "w' = w2 \<or> refresh_category e limit cat latest w2 = Inr (xs, w')"
      by (auto simp: process_category_def split: option.splits list.splits)
    with i2 refresh_category_content [OF i2] show ?thesis by blast
  qed
qed

lemma categories_loop_content:
  "articles_have_content w \<Longrightarrow> categories_loop e limit cats results w = Inr (r, w') \<Longrightarrow>
   articles_have_content w'"
proof (induction cats arbitrary: results w)
  case Nil
  then show ?case by simp
next
  case (Cons c cats)
  from Cons.prems(2) obtain fin w1
    where p: "process_category e limit c w = Inr (fin, w1)"
      and l: "categories_loop e limit cats (AList.update c fin results) w1 = Inr (r, w')"
    by (auto split: sum.splits)
  from Cons.IH [OF process_category_content [OF Cons.prems(1) p] l] show ?case .
qed

lemma get_articles_with_cache_content:
  "articles_have_content w \<Longrightarrow> get_articles_with_cache e cats limit w = Inr (r, w') \<Longrightarrow>
   articles_have_content w'"
  by (simp add: get_articles_with_cache_def categories_loop_content)

lemma empty_store_has_content:
  "article_table w = [] \<Longrightarrow> articles_have_content w"
  by (simp add: articles_have_content_def)



section \<open>Serving a fresh cache\<close>

text \<open>
  Claim C4, as far as the code goes. The category has a cache entry; at the (at most
  six) interactions of this iteration the database answers and the clock is within four
  hours of \<open>cached_at\<close>; the stored url equals the current newest listing url, the value
  of \<open>get_latest_article_url\<close>; and at least one stored article has an id recorded in
  the entry. Then the iteration returns the cached articles, newest first and cut to
  \<open>limit\<close>, makes no content request and changes neither table.
\<close>

theorem fresh_cache_served_without_content_requests:
  assumes ok: "\<forall>t. tick w \<le> t \<and> t < tick w + 6 \<longrightarrow> db_ok_at e t"
    and entry: "find_cache_entry (cache_table w) cat = Some cache_entry"
    and young: "\<forall>t. tick w \<le> t \<and> t < tick w + 6 \<longrightarrow>
                  utcnow_at e t - cached_at cache_entry \<le> four_hours"
    and same: "fst (get_latest_article_url e cat (advance w)) = latest_article_url cache_entry"
    and stored: "\<exists>r \<in> set (article_table w). row_id r \<in> set (cached_articles_json cache_entry)"
  shows "\<exists>w'. process_category e limit cat w =
                 Inr (py_slice_to limit
                        (map row_to_dict
                           (sort_key (\<lambda>r. - row_scraped_at r)
                              (filter (\<lambda>r. row_id r \<in> set (cached_articles_json cache_entry))
                                 (article_table w)))), w')
              \<and> content_requests w' = content_requests w
              \<and> article_table w' = article_table w \<and> cache_table w' = cache_table w"
proof -
  define cached where
    "cached = map row_to_dict
                (sort_key (\<lambda>r. - row_scraped_at r)
                   (filter (\<lambda>r. row_id r \<in> set (cached_articles_json cache_entry))
                      (article_table w)))"
  obtain cur w2 where l: "get_latest_article_url e cat (advance w) = (cur, w2)"
    by (cases "get_latest_article_url e cat (advance w)")
  from same l have cur: "cur = latest_article_url cache_entry" by simp
  from get_latest_article_url_frame [OF l]
  have f2: "article_table w2 = article_table w" "cache_table w2 = cache_table w"
    "content_requests w2 = content_requests w"
    and t2: "tick w2 = tick w + 1 \<or> tick w2 = tick w + 2" by auto
  have d0: "db_access e w = Inr (advance w)" using ok by (simp add: db_access_def)
  have age1: "\<not> four_hours < utcnow_at e (tick w2) - cached_at cache_entry"
    using young t2 by (auto simp: not_less)
  have dec: "should_update_cache e cat w =
               Inr ((False, latest_article_url cache_entry), advance w2)"
    using d0 l entry cur age1 by (simp add: should_update_cache_def utcnow_def Let_def)
  have d3: "db_access e (advance w2) = Inr (advance (advance w2))"
    using ok t2 by (auto simp: db_access_def)
  have age2: "\<not> four_hours < utcnow_at e (tick (advance (advance w2))) - cached_at cache_entry"
    using young t2 by (auto simp: not_less)
  have d5: "db_access e (advance (advance (advance w2))) =
              Inr (advance (advance (advance (advance w2))))"
    using ok t2 by (auto simp: db_access_def)
  from stored have ids: "cached_articles_json cache_entry \<noteq> []" by auto
  have got: "get_cached_articles e cat (advance w2) =
               Inr (Some cached, advance (advance (advance (advance w2))))"
    using d3 d5 age2 ids entry f2
    by (simp add: get_cached_articles_def utcnow_def Let_def cached_def)
  from stored have "filter (\<lambda>r. row_id r \<in> set (cached_articles_json cache_entry))
                      (article_table w) \<noteq> []"
    by (simp only: filter_empty_conv) blast
  then have "length cached \<noteq> 0" by (simp add: cached_def)
  then obtain a as where ne: "cached = a # as" by (cases cached) auto
  have "process_category e limit cat w =
          Inr (py_slice_to limit cached, advance (advance (advance (advance w2))))"
    using dec got ne by (simp add: process_category_def)
  with f2 show ?thesis
    unfolding cached_def
    by (intro exI [of _ "advance (advance (advance (advance w2)))"]) simp
qed

theorem fresh_cache_served_without_content_requests_witness:
  "find_cache_entry (cache_table ex_final) ''india'' = Some (hd (cache_table ex_final))
   \<and> fst (get_latest_article_url ex_env ''india'' (advance ex_final))
        = latest_article_url (hd (cache_table ex_final))
   \<and> (\<exists>w'. process_category ex_env 1 ''india'' ex_final =
               Inr (py_slice_to 1
                      (map row_to_dict
                         (sort_key (\<lambda>r. - row_scraped_at r)
                            (filter (\<lambda>r. row_id r \<in> set (cached_articles_json
                                                           (hd (cache_table ex_final))))
                               (article_table ex_final)))), w')
            \<and> content_requests w' = content_requests ex_final
            \<and> article_table w' = article_table ex_final
            \<and> cache_table w' = cache_table ex_final)"
proof -
  have ok: "\<forall>t. tick ex_final \<le> t \<and> t < tick ex_final + 6 \<longrightarrow> db_ok_at ex_env t"
    by (simp add: ex_env_def)
  have entry: "find_cache_entry (cache_table ex_final) ''india'' = Some (hd (cache_table ex_final))"
    by (simp add: ex_final_def find_cache_entry_def)
  have young: "\<forall>t. tick ex_final \<le> t \<and> t < tick ex_final + 6 \<longrightarrow>
                 utcnow_at ex_env t - cached_at (hd (cache_table ex_final)) \<le> four_hours"
    by (simp add: ex_env_def ex_final_def four_hours_def)
  have same: "fst (get_latest_article_url ex_env ''india'' (advance ex_final))
                = latest_article_url (hd (cache_table ex_final))"
    by code_simp
  have stored: "\<exists>r \<in> set (article_table ex_final).
                  row_id r \<in> set (cached_articles_json (hd (cache_table ex_final)))"
    by (simp add: ex_final_def)
  note r = fresh_cache_served_without_content_requests [OF ok entry young same stored, of 1]
  show ?thesis by (intro conjI entry same r)
qed

text \<open>
  Claim C4 as it is written has no condition on the stored articles. Here the decision
  is Fresh (the entry is seconds old and its url is the current newest one), but the
  record behind the cached id is gone: the iteration falls through to a refresh, whose
  top-up pass requests the content of the first listed article.
\<close>

theorem fresh_cache_served_without_content_requests_counterexample:
  "map_sum id fst (should_update_cache ex_env ''india'' ex_dangling)
     = Inr (False, Some ''https://indianexpress.com/article/india/budget-bill-1/'')
   \<and> content_requests ex_dangling = []
   \<and> map_sum id (content_requests \<circ> snd) (process_category ex_env 1 ''india'' ex_dangling)
     = Inr [''https://indianexpress.com/article/india/budget-bill-1/'']"
  by code_simp

end
